theory Spec2Isabelle
  imports Main
begin


section \<open>Objects used as dictionaries\<close>

text \<open>
  The script keeps its two dictionaries in plain objects (\<open>Record<string, T>\<close>, made by
  \<open>{}\<close>), written with \<open>obj[k] = v\<close> and read with \<open>obj[k]\<close> and
  \<open>Object.entries(obj)\<close>. An object is modelled by the list of its own properties in
  insertion order. Assigning to a key that exists replaces the value where it stands;
  assigning to a new key appends it.
\<close>

type_synonym 'v js_object = "(string \<times> 'v) list"

fun obj_set :: "string \<Rightarrow> 'v \<Rightarrow> 'v js_object \<Rightarrow> 'v js_object" where
  "obj_set k v [] = [(k, v)]"
| "obj_set k v ((k', v') # rest) =
     (if k' = k then (k, v) # rest else (k', v') # obj_set k v rest)"

definition obj_get :: "'v js_object \<Rightarrow> string \<Rightarrow> 'v option" where
  "obj_get obj k = map_of obj k"

definition obj_keys :: "'v js_object \<Rightarrow> string list" where
  "obj_keys obj = map fst obj"

text \<open>
  A read \<open>obj[k]\<close> goes through the prototype chain: an object made by \<open>{}\<close> inherits the
  members of \<open>Object.prototype\<close>. Their names are the twelve below; the value of each is
  a function, and the value of \<open>__proto__\<close> is \<open>Object.prototype\<close> itself, so every one of
  them is truthy and has no property \<open>packages\<close>. An own property hides an inherited
  member of its name. (An assignment to \<open>__proto__\<close> would not make an own property; the
  script makes none: the index is keyed by texts without underscore, and the store is
  assigned at a key only after a read of the key that found nothing.)
\<close>

definition object_prototype_members :: "string list" where
  "object_prototype_members =
     [''constructor'', ''__defineGetter__'', ''__defineSetter__'', ''hasOwnProperty'',
      ''__lookupGetter__'', ''__lookupSetter__'', ''isPrototypeOf'', ''propertyIsEnumerable'',
      ''toString'', ''valueOf'', ''__proto__'', ''toLocaleString'']"

definition inherited :: "string \<Rightarrow> bool" where
  "inherited k = (k \<in> set object_prototype_members)"

datatype 'v lookup = Own 'v | Inherited | Undefined

definition obj_read :: "'v js_object \<Rightarrow> string \<Rightarrow> 'v lookup" where
  "obj_read obj k =
     (case map_of obj k of
        Some v \<Rightarrow> Own v
      | None \<Rightarrow> if inherited k then Inherited else Undefined)"

text \<open>
  \<open>Object.entries\<close> lists the own keys that are array indices (canonical decimal
  numerals below \<open>2^32 - 1\<close>) first, in ascending numeric order, and every other own key
  after them in insertion order.
\<close>

definition is_digit :: "char \<Rightarrow> bool" where
  "is_digit c = (c \<in> set ''0123456789'')"

definition dec_val :: "string \<Rightarrow> nat" where
  "dec_val s = foldl (\<lambda>a c. 10 * a + (of_char c - 48)) 0 s"

definition is_array_index :: "string \<Rightarrow> bool" where
  "is_array_index s =
     (s \<noteq> [] \<and> list_all is_digit s \<and> (s = ''0'' \<or> hd s \<noteq> CHR ''0'') \<and> dec_val s < 4294967295)"

definition object_entries :: "'v js_object \<Rightarrow> (string \<times> 'v) list" where
  "object_entries obj =
     sort_key (\<lambda>e. dec_val (fst e)) (filter (\<lambda>e. is_array_index (fst e)) obj)
     @ filter (\<lambda>e. \<not> is_array_index (fst e)) obj"

section \<open>The report and the grouped vulnerabilities\<close>

record package =
  name :: string
  target :: string

record vulnerability =
  description :: string
  packages :: "package list"
  snykId :: string

text \<open>
  A finding of the report carries \<open>id\<close> and \<open>description\<close>; either may be missing
  (\<open>undefined\<close>), which is \<open>None\<close> here.
\<close>

record finding =
  id' :: "string option"
  description' :: "string option"

record project =
  projectName :: string
  displayTargetFile :: string
  vulnerabilities :: "finding list"

type_synonym report = "project list"

text \<open>
  What the script can throw: the \<open>TypeError\<close> of a method call on \<open>undefined\<close>, and the
  error of a request that the tracker or the transport rejects.
\<close>

datatype error = TypeError | RequestError

text \<open>
  The body of the inner \<open>forEach\<close> of \<open>main\<close>: one finding of one project.
  \<open>if (vulnerabilityStore[id])\<close> is a read through the prototype chain. A record of the
  store is truthy. An inherited member is truthy too, and the branch then calls
  \<open>.packages.some\<close> on it, where \<open>.packages\<close> is \<open>undefined\<close>: the call throws.
\<close>

definition add_finding ::
  "string \<Rightarrow> string \<Rightarrow> vulnerability js_object \<Rightarrow> finding \<Rightarrow> error + vulnerability js_object" where
  "add_finding pName tFile store f =
     (case (id' f, description' f) of
        (Some i, Some d) \<Rightarrow>
          (case obj_read store i of
             Own v \<Rightarrow>
               if \<not> list_ex (\<lambda>p. name p = pName) (packages v)
               then Inr (obj_set i (v\<lparr>packages := packages v @ [\<lparr>name = pName, target = tFile\<rparr>]\<rparr>)
                           store)
               else Inr store
           | Inherited \<Rightarrow> Inl TypeError
           | Undefined \<Rightarrow>
               Inr (obj_set i \<lparr>description = d,
                               packages = [\<lparr>name = pName, target = tFile\<rparr>],
                               snykId = i\<rparr> store))
      | _ \<Rightarrow> Inr store)"

text \<open>
  The two nested \<open>forEach\<close> loops. A throw ends both; the result is the store as the
  loops leave it, at their end or at the throw, and the error thrown, if any.
\<close>

fun add_findings ::
  "string \<Rightarrow> string \<Rightarrow> vulnerability js_object \<Rightarrow> finding list
     \<Rightarrow> vulnerability js_object \<times> error option" where
  "add_findings pName tFile store [] = (store, None)"
| "add_findings pName tFile store (f # fs) =
     (case add_finding pName tFile store f of
        Inl e \<Rightarrow> (store, Some e)
      | Inr store' \<Rightarrow> add_findings pName tFile store' fs)"

fun add_projects ::
  "vulnerability js_object \<Rightarrow> project list \<Rightarrow> vulnerability js_object \<times> error option" where
  "add_projects store [] = (store, None)"
| "add_projects store (p # ps) =
     (case add_findings (projectName p) (displayTargetFile p) store (vulnerabilities p) of
        (store', Some e) \<Rightarrow> (store', Some e)
      | (store', None) \<Rightarrow> add_projects store' ps)"

definition grouping :: "report \<Rightarrow> vulnerability js_object \<times> error option" where
  "grouping rep = add_projects [] rep"

definition group_vulnerabilities :: "report \<Rightarrow> vulnerability js_object" where
  "group_vulnerabilities rep = fst (grouping rep)"

definition grouping_error :: "report \<Rightarrow> error option" where
  "grouping_error rep = snd (grouping rep)"

text \<open>
  The report in scan order: every finding with the project it was found in. A finding
  that has both fields is an occurrence of its identifier; the others are not.
\<close>

definition scan :: "report \<Rightarrow> (string \<times> string \<times> finding) list" where
  "scan rep =
     concat (map (\<lambda>p. map (\<lambda>f. (projectName p, displayTargetFile p, f)) (vulnerabilities p)) rep)"

record occurrence =
  occ_id :: string
  occ_description :: string
  occ_package :: package

definition occurrences_of :: "(string \<times> string \<times> finding) list \<Rightarrow> occurrence list" where
  "occurrences_of xs =
     concat (map (\<lambda>(pn, tf, f).
        case (id' f, description' f) of
          (Some i, Some d) \<Rightarrow>
            [\<lparr>occ_id = i, occ_description = d, occ_package = \<lparr>name = pn, target = tf\<rparr>\<rparr>]
        | _ \<Rightarrow> []) xs)"

definition occurrences :: "report \<Rightarrow> occurrence list" where
  "occurrences rep = occurrences_of (scan rep)"

text \<open>
  What the specification says of the grouped output, in its words: identifiers in
  first-seen order, each once; a package list without repeated names, in first-seen
  order; the description of the first occurrence.
\<close>

fun first_seen :: "'a list \<Rightarrow> 'a list" where
  "first_seen [] = []"
| "first_seen (x # xs) = x # removeAll x (first_seen xs)"

fun dedup_by_name :: "package list \<Rightarrow> package list" where
  "dedup_by_name [] = []"
| "dedup_by_name (p # ps) = p # filter (\<lambda>q. name q \<noteq> name p) (dedup_by_name ps)"

definition grouped_record :: "occurrence list \<Rightarrow> string \<Rightarrow> vulnerability option" where
  "grouped_record es k =
     (case filter (\<lambda>e. occ_id e = k) es of
        [] \<Rightarrow> None
      | e # rest \<Rightarrow> Some \<lparr>description = occ_description e,
                          packages = dedup_by_name (map occ_package (e # rest)),
                          snykId = k\<rparr>)"




text \<open>
  The loops over the report in scan order, and the findings at which the grouping can
  go on whatever the store holds: those that are skipped and those whose identifier
  names no inherited member.
\<close>

fun scan_from ::
  "vulnerability js_object \<Rightarrow> (string \<times> string \<times> finding) list
     \<Rightarrow> vulnerability js_object \<times> error option" where
  "scan_from store [] = (store, None)"
| "scan_from store ((pn, tf, f) # rest) =
     (case add_finding pn tf store f of
        Inl e \<Rightarrow> (store, Some e)
      | Inr store' \<Rightarrow> scan_from store' rest)"

definition safe :: "string \<times> string \<times> finding \<Rightarrow> bool" where
  "safe x = (case (id' (snd (snd x)), description' (snd (snd x))) of
               (Some i, Some d) \<Rightarrow> \<not> inherited i
             | _ \<Rightarrow> True)"

text \<open>
  The occurrences that the grouping takes in: those scanned before the first finding
  at which it throws, and all if there is none.
\<close>

definition seen :: "report \<Rightarrow> occurrence list" where
  "seen rep = occurrences_of (takeWhile safe (scan rep))"

section \<open>The issue tracker\<close>

text \<open>
  The tracker is the external collaborator. An issue has a number, a title, labels, a
  state (\<open>open\<close> or \<open>closed\<close>) and a body. The script sends three kinds of request; the
  parameters are the ones of the client library, absent ones being \<open>None\<close>. The fourth
  constructor is the update that the script would ask for with an inherited member of
  the given name in the place of the issue number, and the given body; no issue has
  such a number.
\<close>

record issue =
  number :: nat
  title :: string
  labels :: "string list"
  state :: string
  body :: string

record list_params =
  l_owner :: string
  l_repo :: string
  l_per_page :: nat
  l_state :: string
  l_labels :: string

record create_params =
  c_owner :: string
  c_repo :: string
  c_title :: string
  c_labels :: "string list"
  c_body :: string

record update_params =
  u_owner :: string
  u_repo :: string
  u_issue_number :: nat
  u_title :: "string option"
  u_body :: "string option"
  u_state :: "string option"
  u_labels :: "string list option"

datatype request =
    ListForRepo list_params
  | IssuesCreate create_params
  | IssuesUpdate update_params
  | IssuesUpdateMember string string

type_synonym tracker = "issue list"

text \<open>
  Modelled from the spec: the tracker's side of the protocol, which is not code of the
  repository (section 6: paginated list-issues-by-label-and-state, create-issue with
  title, labels and body, update-issue of the body, update-issue of the state). Listing
  returns the issues with the asked state and label in pages; creating adds an open
  issue under a number larger than every number in use (newest first in the listing);
  updating changes exactly the fields that the request carries.
\<close>

function paginate :: "nat \<Rightarrow> 'a list \<Rightarrow> 'a list list" where
  "paginate n xs = (if n = 0 \<or> xs = [] then [] else take n xs # paginate n (drop n xs))"
  by pat_completeness auto
termination
  by (relation "measure (\<lambda>(n, xs). length xs)") auto

declare paginate.simps [simp del]

definition list_for_repo :: "list_params \<Rightarrow> tracker \<Rightarrow> issue list list" where
  "list_for_repo l tr =
     paginate (l_per_page l) (filter (\<lambda>i. state i = l_state l \<and> l_labels l \<in> set (labels i)) tr)"

definition next_number :: "tracker \<Rightarrow> nat" where
  "next_number tr = Suc (foldr max (map number tr) 0)"

definition apply_update :: "update_params \<Rightarrow> issue \<Rightarrow> issue" where
  "apply_update u i =
     i\<lparr>title := (case u_title u of Some t \<Rightarrow> t | None \<Rightarrow> title i),
       body := (case u_body u of Some b \<Rightarrow> b | None \<Rightarrow> body i),
       state := (case u_state u of Some s \<Rightarrow> s | None \<Rightarrow> state i),
       labels := (case u_labels u of Some ls \<Rightarrow> ls | None \<Rightarrow> labels i)\<rparr>"

fun tracker_apply :: "tracker \<Rightarrow> request \<Rightarrow> tracker" where
  "tracker_apply tr (ListForRepo l) = tr"
| "tracker_apply tr (IssuesCreate c) =
     \<lparr>number = next_number tr, title = c_title c, labels = c_labels c,
      state = ''open'', body = c_body c\<rparr> # tr"
| "tracker_apply tr (IssuesUpdate u) =
     map (\<lambda>i. if number i = u_issue_number u then apply_update u i else i) tr"
| "tracker_apply tr (IssuesUpdateMember k b) = tr"

definition tracker_after :: "tracker \<Rightarrow> request list \<Rightarrow> tracker" where
  "tracker_after tr rs = foldl tracker_apply tr rs"


section \<open>The script\<close>

definition GH_OWNER :: string where "GH_OWNER = ''backstage''"
definition GH_REPO :: string where "GH_REPO = ''backstage''"
definition SNYK_GH_LABEL :: string where "SNYK_GH_LABEL = ''snyk-vulnerability''"

subsection \<open>The identifier pattern\<close>

text \<open>
  \<open>SNYK_ID_REGEX\<close> is \<open>/\[([A-Z0-9-:]+)]/i\<close>: an opening bracket, one or more characters
  of the class, a closing bracket. With the flag \<open>i\<close> the class holds the letters of
  both cases, the digits, \<open>-\<close> and \<open>:\<close>. The closing bracket is not in the class, so the
  greedy repetition matches the longest run of class characters and no shorter run can
  be followed by the bracket. \<open>exec\<close> returns the leftmost match; the capture group is
  the run.
\<close>

definition id_char :: "char \<Rightarrow> bool" where
  "id_char c =
     (c \<in> set (''ABCDEFGHIJKLMNOPQRSTUVWXYZ'' @ ''abcdefghijklmnopqrstuvwxyz''
                @ ''0123456789'' @ ''-:''))"

definition match_here :: "string \<Rightarrow> string option" where
  "match_here s =
     (case s of
        [] \<Rightarrow> None
      | c # rest \<Rightarrow>
          if c = CHR ''[''
             \<and> takeWhile id_char rest \<noteq> []
             \<and> take 1 (dropWhile id_char rest) = '']''
          then Some (takeWhile id_char rest)
          else None)"

fun SNYK_ID_REGEX_exec :: "string \<Rightarrow> string option" where
  "SNYK_ID_REGEX_exec [] = None"
| "SNYK_ID_REGEX_exec (c # cs) =
     (case match_here (c # cs) of
        Some t \<Rightarrow> Some t
      | None \<Rightarrow> SNYK_ID_REGEX_exec cs)"

text \<open>The specification's words for a title that carries an identifier.\<close>

definition has_bracketed_token :: "string \<Rightarrow> string \<Rightarrow> bool" where
  "has_bracketed_token ttl tok =
     (tok \<noteq> [] \<and> list_all id_char tok \<and> (\<exists>pre post. ttl = pre @ ''['' @ tok @ '']'' @ post))"

subsection \<open>The issue index\<close>

text \<open>
  \<open>fetchSnykGithubIssueMap\<close> walks the pages of the listing. The result is the index and
  the lines written to the console.
\<close>

definition index_issue :: "nat js_object \<times> string list \<Rightarrow> issue \<Rightarrow> nat js_object \<times> string list" where
  "index_issue acc i =
     (case SNYK_ID_REGEX_exec (title i) of
        Some t \<Rightarrow>
          if t \<noteq> [] then (obj_set t (number i) (fst acc), snd acc)
          else (fst acc, snd acc @ [''Unmatched Snyk ID for '' @ title i])
      | None \<Rightarrow> (fst acc, snd acc @ [''Unmatched Snyk ID for '' @ title i]))"

definition fetchSnykGithubIssueMap :: "issue list list \<Rightarrow> nat js_object \<times> string list" where
  "fetchSnykGithubIssueMap pages = foldl (foldl index_issue) ([], []) pages"

subsection \<open>The issue body\<close>

definition nl :: string where
  "nl = [CHR 0x0A]"

fun js_join :: "string \<Rightarrow> string list \<Rightarrow> string" where
  "js_join sep [] = []"
| "js_join sep [x] = x"
| "js_join sep (x # y # ys) = x @ sep @ js_join sep (y # ys)"

definition bullet :: "package \<Rightarrow> string" where
  "bullet p = ''* ['' @ name p @ '']('' @ target p @ '')''"

definition generateIssueBody :: "vulnerability \<Rightarrow> string" where
  "generateIssueBody v =
     nl @ ''## Affecting Packages/Plugins'' @ nl @ nl
     @ js_join nl (map bullet (packages v))
     @ nl @ nl @ description v @ nl"

text \<open>The lines of a text, as \<open>split('\n')\<close> gives them.\<close>

fun lines_of :: "string \<Rightarrow> string list" where
  "lines_of [] = [[]]"
| "lines_of (c # cs) =
     (if c = CHR 0x0A then [] # lines_of cs
      else (c # hd (lines_of cs)) # tl (lines_of cs))"

subsection \<open>The three operations\<close>

text \<open>
  Each operation writes to the console and, unless the run is a dry run, sends one
  request. The result is the pair of both: the lines written and the request asked
  for. Whether the request succeeds is the matter of \<open>main\<close> below, which awaits it.
\<close>

function show_nat :: "nat \<Rightarrow> string" where
  "show_nat n =
     (if n < 10 then [char_of (48 + n)]
      else show_nat (n div 10) @ [char_of (48 + n mod 10)])"
  by pat_completeness auto
termination
  by (relation "measure id") auto

declare show_nat.simps [simp del]

definition createGithubIssue :: "bool \<Rightarrow> vulnerability \<Rightarrow> string list \<times> request list" where
  "createGithubIssue isDryRun v =
     ((''Create Github Issue for Snyk Vulnerability '' @ snykId v)
        # map (\<lambda>p. ''- '' @ name p @ '' ['' @ target p @ '']'') (packages v),
      if \<not> isDryRun
      then [IssuesCreate \<lparr>c_owner = GH_OWNER, c_repo = GH_REPO,
                          c_title = ''Snyk vulnerability ['' @ snykId v @ '']'',
                          c_labels = [SNYK_GH_LABEL, ''help wanted''],
                          c_body = generateIssueBody v\<rparr>]
      else [])"

definition updateGithubIssue :: "bool \<Rightarrow> nat \<Rightarrow> vulnerability \<Rightarrow> string list \<times> request list" where
  "updateGithubIssue isDryRun githubIssueId v =
     ([''Update Github Issue #'' @ show_nat githubIssueId
         @ '' for Snky Vulnerability '' @ snykId v],
      if \<not> isDryRun
      then [IssuesUpdate \<lparr>u_owner = GH_OWNER, u_repo = GH_REPO,
                          u_issue_number = githubIssueId,
                          u_title = None, u_body = Some (generateIssueBody v),
                          u_state = None, u_labels = None\<rparr>]
      else [])"

definition closeGithubIssue :: "bool \<Rightarrow> nat \<Rightarrow> string list \<times> request list" where
  "closeGithubIssue isDryRun githubIssueId =
     ([''Closing Github Issue #'' @ show_nat githubIssueId],
      if \<not> isDryRun
      then [IssuesUpdate \<lparr>u_owner = GH_OWNER, u_repo = GH_REPO,
                          u_issue_number = githubIssueId,
                          u_title = None, u_body = None,
                          u_state = Some ''closed'', u_labels = None\<rparr>]
      else [])"

subsection \<open>The reconciliation\<close>

text \<open>
  The two loops of \<open>main\<close>, as the calls they make, each with the key the loop was at.
  Both tests are reads through the prototype chain. \<open>if (snykGithubIssueMap[id])\<close> tests
  the issue number for truthiness: a missing entry and the number \<open>0\<close> both take the
  else branch, and an inherited member would take the branch of the update, with the
  member in the place of the issue number. \<open>!vulnerabilityStore[snykId]\<close> holds exactly
  when the store has no record for the key and the key names no inherited member.
\<close>

datatype call =
    Create vulnerability
  | Update nat vulnerability
  | Close nat
  | UpdateMember string vulnerability

definition main_calls :: "nat js_object \<Rightarrow> vulnerability js_object \<Rightarrow> (string \<times> call) list" where
  "main_calls snykGithubIssueMap vulnerabilityStore =
     map (\<lambda>(i, v).
            (i, case obj_read snykGithubIssueMap i of
                  Own n \<Rightarrow> if n \<noteq> 0 then Update n v else Create v
                | Inherited \<Rightarrow> UpdateMember i v
                | Undefined \<Rightarrow> Create v))
         (object_entries vulnerabilityStore)
     @ map (\<lambda>(snykId, githubIssueId). (snykId, Close githubIssueId))
         (filter (\<lambda>(snykId, githubIssueId). obj_read vulnerabilityStore snykId = Undefined)
            (object_entries snykGithubIssueMap))"

text \<open>
  The text that a template literal makes of an inherited member: the source text of a
  built-in function, and \<open>[object Object]\<close> for \<open>Object.prototype\<close>.
\<close>

definition member_text :: "string \<Rightarrow> string" where
  "member_text k =
     (if k = ''__proto__'' then ''[object Object]''
      else ''function '' @ (if k = ''constructor'' then ''Object'' else k)
           @ ''() { [native code] }'')"

fun perform :: "bool \<Rightarrow> call \<Rightarrow> string list \<times> request list" where
  "perform isDryRun (Create v) = createGithubIssue isDryRun v"
| "perform isDryRun (Update n v) = updateGithubIssue isDryRun n v"
| "perform isDryRun (Close n) = closeGithubIssue isDryRun n"
| "perform isDryRun (UpdateMember k v) =
     ([''Update Github Issue #'' @ member_text k @ '' for Snky Vulnerability '' @ snykId v],
      if \<not> isDryRun then [IssuesUpdateMember k (generateIssueBody v)] else [])"

text \<open>
  What a run leaves: the lines on the console, the requests asked for (the rejected
  one last, when one is rejected) and the error thrown, if any.
\<close>

record run =
  console :: "string list"
  sent :: "request list"
  thrown :: "error option"

text \<open>
  The calls are made one after another and each request is awaited. Whether a request
  succeeds is for the tracker and the transport to say: \<open>ok n\<close> tells it of the request
  number \<open>n\<close> of the run, counted from \<open>0\<close>. The first rejected request throws, and
  nothing is done after it.
\<close>

fun run_calls :: "bool \<Rightarrow> (nat \<Rightarrow> bool) \<Rightarrow> nat \<Rightarrow> call list \<Rightarrow> run" where
  "run_calls isDryRun ok n [] = \<lparr>console = [], sent = [], thrown = None\<rparr>"
| "run_calls isDryRun ok n (c # cs) =
     (case snd (perform isDryRun c) of
        [] \<Rightarrow>
          (let r = run_calls isDryRun ok n cs
           in r\<lparr>console := fst (perform isDryRun c) @ console r\<rparr>)
      | q # qs \<Rightarrow>
          if ok n
          then (let r = run_calls isDryRun ok (Suc n) cs
                in r\<lparr>console := fst (perform isDryRun c) @ console r, sent := q # sent r\<rparr>)
          else \<lparr>console = fst (perform isDryRun c), sent = [q], thrown = Some RequestError\<rparr>)"

definition listing :: list_params where
  "listing = \<lparr>l_owner = GH_OWNER, l_repo = GH_REPO, l_per_page = 100,
              l_state = ''open'', l_labels = SNYK_GH_LABEL\<rparr>"

definition issue_index :: "tracker \<Rightarrow> nat js_object" where
  "issue_index tr = fst (fetchSnykGithubIssueMap (list_for_repo listing tr))"

definition plan :: "tracker \<Rightarrow> report \<Rightarrow> (string \<times> call) list" where
  "plan tr rep = main_calls (issue_index tr) (group_vulnerabilities rep)"

text \<open>
  \<open>main\<close>. The listing is asked for page by page, one request a page and one request
  when there is no issue; the issues of a page are indexed when the page has come. If
  a page request is rejected, \<open>main\<close> throws with the pages before it indexed. Then the
  report is grouped, which may throw, and then the calls are made.
\<close>

definition main :: "bool \<Rightarrow> (nat \<Rightarrow> bool) \<Rightarrow> tracker \<Rightarrow> report \<Rightarrow> run" where
  "main isDryRun ok tr rep =
     (let pages = list_for_repo listing tr;
          asked = max 1 (length pages);
          got = length (takeWhile ok [0..<asked])
      in if got < asked
         then \<lparr>console = snd (fetchSnykGithubIssueMap (take got pages)),
               sent = replicate (Suc got) (ListForRepo listing),
               thrown = Some RequestError\<rparr>
         else
           let fetched = fetchSnykGithubIssueMap pages;
               grouped = grouping rep
           in case snd grouped of
                Some e \<Rightarrow>
                  \<lparr>console = snd fetched, sent = replicate asked (ListForRepo listing),
                   thrown = Some e\<rparr>
              | None \<Rightarrow>
                  let r = run_calls isDryRun ok asked (map snd (main_calls (fst fetched) (fst grouped)))
                  in \<lparr>console = snd fetched @ console r,
                      sent = replicate asked (ListForRepo listing) @ sent r,
                      thrown = thrown r\<rparr>)"

subsection \<open>The top level\<close>

text \<open>
  The script reads the token from the environment and the flag from the command line,
  checks the token, prints the dry-run notice and calls \<open>main\<close>. \<open>!process.env.GITHUB_TOKEN\<close>
  holds for a variable that is not set and for one set to the empty text. When \<open>main\<close>
  throws, the handler writes the stack trace of the error to the error stream and ends
  the process with exit code 1.
\<close>

datatype error_line = Message string | Stack error

record outcome =
  exit_code :: nat
  stdout :: "string list"
  stderr :: "error_line list"
  requests :: "request list"

definition warning_sign :: string where
  "warning_sign = [CHR 0xE2, CHR 0x9A, CHR 0xA0, CHR 0xEF, CHR 0xB8, CHR 0x8F]"

definition script :: "string option \<Rightarrow> bool \<Rightarrow> (nat \<Rightarrow> bool) \<Rightarrow> tracker \<Rightarrow> report \<Rightarrow> outcome" where
  "script GITHUB_TOKEN isDryRun ok tr rep =
     (if GITHUB_TOKEN = None \<or> GITHUB_TOKEN = Some []
      then \<lparr>exit_code = 1, stdout = [],
            stderr = [Message ''GITHUB_TOKEN is not set. Please provide a Github token''],
            requests = []\<rparr>
      else
        let notice =
              (if isDryRun
               then [warning_sign
                     @ ''  Running in dryrun mode, no issues will be updated on Github ''
                     @ warning_sign]
               else []);
            ran = main isDryRun ok tr rep
        in case thrown ran of
             None \<Rightarrow>
               \<lparr>exit_code = 0, stdout = notice @ console ran, stderr = [], requests = sent ran\<rparr>
           | Some e \<Rightarrow>
               \<lparr>exit_code = 1, stdout = notice @ console ran, stderr = [Stack e],
                requests = sent ran\<rparr>)"

section \<open>Notions for the statements\<close>

text \<open>
  The issues of a listing whose title yields an identifier, with the identifier, in
  listing order; the other issues of the listing.
\<close>

definition matched :: "issue list \<Rightarrow> (string \<times> nat) list" where
  "matched issues =
     concat (map (\<lambda>i. case SNYK_ID_REGEX_exec (title i) of
                          Some t \<Rightarrow> [(t, number i)]
                        | None \<Rightarrow> []) issues)"

definition unmatched :: "issue list \<Rightarrow> issue list" where
  "unmatched issues = filter (\<lambda>i. SNYK_ID_REGEX_exec (title i) = None) issues"

text \<open>
  The request that a call of the reconciliation stands for in a run that is not dry,
  and what the console says of a call, in a dry run and in a live run alike: the
  identifier of a CREATE and its packages, the issue number and the identifier of an
  UPDATE, the issue number of a CLOSE.
\<close>

fun request_of :: "call \<Rightarrow> request" where
  "request_of (Create v) =
     IssuesCreate \<lparr>c_owner = ''backstage'', c_repo = ''backstage'',
                   c_title = ''Snyk vulnerability ['' @ snykId v @ '']'',
                   c_labels = [''snyk-vulnerability'', ''help wanted''],
                   c_body = generateIssueBody v\<rparr>"
| "request_of (Update n v) =
     IssuesUpdate \<lparr>u_owner = ''backstage'', u_repo = ''backstage'', u_issue_number = n,
                   u_title = None, u_body = Some (generateIssueBody v),
                   u_state = None, u_labels = None\<rparr>"
| "request_of (Close n) =
     IssuesUpdate \<lparr>u_owner = ''backstage'', u_repo = ''backstage'', u_issue_number = n,
                   u_title = None, u_body = None,
                   u_state = Some ''closed'', u_labels = None\<rparr>"
| "request_of (UpdateMember k v) = IssuesUpdateMember k (generateIssueBody v)"

fun decision_log :: "call \<Rightarrow> string list" where
  "decision_log (Create v) =
     (''Create Github Issue for Snyk Vulnerability '' @ snykId v)
       # map (\<lambda>p. ''- '' @ name p @ '' ['' @ target p @ '']'') (packages v)"
| "decision_log (Update n v) =
     [''Update Github Issue #'' @ show_nat n @ '' for Snky Vulnerability '' @ snykId v]"
| "decision_log (Close n) = [''Closing Github Issue #'' @ show_nat n]"
| "decision_log (UpdateMember k v) =
     [''Update Github Issue #'' @ member_text k @ '' for Snky Vulnerability '' @ snykId v]"

definition is_update :: "call \<Rightarrow> bool" where
  "is_update c = (case c of Update n v \<Rightarrow> True | _ \<Rightarrow> False)"

text \<open>
  The requests of the listing: one a page, and one when there is no issue. A run in
  which every request succeeds, and one in which the first request succeeds and no
  other. The requests of a run that the tracker has accepted: all but the rejected one.
\<close>

definition listing_requests :: "tracker \<Rightarrow> request list" where
  "listing_requests tr =
     replicate (max 1 (length (list_for_repo listing tr))) (ListForRepo listing)"

definition all_succeed :: "nat \<Rightarrow> bool" where
  "all_succeed n = True"

definition first_succeeds :: "nat \<Rightarrow> bool" where
  "first_succeeds n = (n = 0)"

definition accepted :: "run \<Rightarrow> request list" where
  "accepted r = (if thrown r = Some RequestError then butlast (sent r) else sent r)"

text \<open>
  A second run sees the tracker as the accepted requests of the first run left it. The
  first run is not a dry run.
\<close>

definition first_run_tracker :: "(nat \<Rightarrow> bool) \<Rightarrow> tracker \<Rightarrow> report \<Rightarrow> tracker" where
  "first_run_tracker ok tr rep = tracker_after tr (accepted (main False ok tr rep))"

definition second_run_plan :: "(nat \<Rightarrow> bool) \<Rightarrow> tracker \<Rightarrow> report \<Rightarrow> (string \<times> call) list" where
  "second_run_plan ok tr rep = plan (first_run_tracker ok tr rep) rep"

text \<open>
  An identifier that the pattern reads back from a title; the identifiers of a report;
  the issues that the listing returns and the identifiers that their titles yield; the
  number, title, labels and state of an issue (all of it but the body), and what they
  are for an issue that the tracker made for a CREATE.
\<close>

definition valid_id :: "string \<Rightarrow> bool" where
  "valid_id k = (k \<noteq> [] \<and> list_all id_char k)"

definition in_report :: "report \<Rightarrow> string \<Rightarrow> bool" where
  "in_report rep k = (obj_get (group_vulnerabilities rep) k \<noteq> None)"

definition visible :: "issue \<Rightarrow> bool" where
  "visible i = (state i = ''open'' \<and> SNYK_GH_LABEL \<in> set (labels i))"

definition extracted_ids :: "tracker \<Rightarrow> string list" where
  "extracted_ids tr = map fst (matched (concat (list_for_repo listing tr)))"

definition meta :: "issue \<Rightarrow> nat \<times> string \<times> string list \<times> string" where
  "meta i = (number i, title i, labels i, state i)"

definition created_meta :: "nat \<Rightarrow> vulnerability \<Rightarrow> nat \<times> string \<times> string list \<times> string" where
  "created_meta n v =
     (n, ''Snyk vulnerability ['' @ snykId v @ '']'', [''snyk-vulnerability'', ''help wanted''], ''open'')"


text \<open>
  The identifiers of a report that name an inherited member, which the grouping cannot
  take in, and the reports without one.
\<close>

definition plain_ids :: "report \<Rightarrow> bool" where
  "plain_ids rep = list_all (\<lambda>e. \<not> inherited (occ_id e)) (occurrences rep)"

text \<open>
  The findings of a report in scan order, the first finding with a given identifier,
  and the first one that has a description as well.
\<close>

definition findings :: "report \<Rightarrow> finding list" where
  "findings rep = map (\<lambda>x. snd (snd x)) (scan rep)"

definition first_finding :: "report \<Rightarrow> string \<Rightarrow> finding option" where
  "first_finding rep k = find (\<lambda>f. id' f = Some k) (findings rep)"

definition first_complete_finding :: "report \<Rightarrow> string \<Rightarrow> finding option" where
  "first_complete_finding rep k =
     find (\<lambda>f. id' f = Some k \<and> description' f \<noteq> None) (findings rep)"

text \<open>The lines that the indexing of the listed issues writes.\<close>

definition index_log :: "tracker \<Rightarrow> string list" where
  "index_log tr = snd (fetchSnykGithubIssueMap (list_for_repo listing tr))"

section \<open>Examples\<close>

text \<open>Scenario 1 of the specification and the record that the grouping makes of it.\<close>

definition scenario_1 :: report where
  "scenario_1 =
     [\<lparr>projectName = ''foo'', displayTargetFile = ''yarn.lock'',
       vulnerabilities = [\<lparr>id' = Some ''SNYK-JS-LODASH-1234'', description' = Some ''text''\<rparr>]\<rparr>]"

definition scenario_1_record :: vulnerability where
  "scenario_1_record =
     \<lparr>description = ''text'', packages = [\<lparr>name = ''foo'', target = ''yarn.lock''\<rparr>],
      snykId = ''SNYK-JS-LODASH-1234''\<rparr>"

text \<open>
  Scenario 2 of the specification, with two incomplete findings and a second
  description added: \<open>X-1\<close> is found in \<open>pkgA\<close> and in \<open>pkgB\<close>.
\<close>

definition scenario_2 :: report where
  "scenario_2 =
     [\<lparr>projectName = ''pkgA'', displayTargetFile = ''lock1'',
       vulnerabilities = [\<lparr>id' = Some ''X-1'', description' = Some ''first text''\<rparr>,
                          \<lparr>id' = None, description' = Some ''no id''\<rparr>]\<rparr>,
      \<lparr>projectName = ''pkgB'', displayTargetFile = ''lock2'',
       vulnerabilities = [\<lparr>id' = Some ''X-1'', description' = Some ''second text''\<rparr>,
                          \<lparr>id' = Some ''Y-2'', description' = None\<rparr>]\<rparr>]"

text \<open>A record whose texts contain characters that markdown gives a meaning to.\<close>

definition example_record :: vulnerability where
  "example_record =
     \<lparr>description = ''Use of *eval* in _x_ <b>'',
      packages = [\<lparr>name = ''pkg_A'', target = ''a/yarn.lock''\<rparr>,
                  \<lparr>name = ''pkg[B]'', target = ''b''\<rparr>],
      snykId = ''X-1''\<rparr>"

text \<open>
  A listing of two pages: an issue with an identifier in lower case, an issue without
  an identifier, and an issue for the identifier of scenario 2.
\<close>

definition example_pages :: "issue list list" where
  "example_pages =
     [[\<lparr>number = 5, title = ''Snyk vulnerability [snyk-js-Abc:1]'',
        labels = [''snyk-vulnerability''], state = ''open'', body = ''old''\<rparr>,
       \<lparr>number = 6, title = ''no identifier [a b]'',
        labels = [''snyk-vulnerability''], state = ''open'', body = ''old''\<rparr>],
      [\<lparr>number = 7, title = ''Snyk vulnerability [X-1]'',
        labels = [''snyk-vulnerability'', ''help wanted''], state = ''open'', body = ''old''\<rparr>]]"

text \<open>The tracker of scenarios 3 and 4 next to an issue that the script does not see.\<close>

definition example_tracker :: tracker where
  "example_tracker =
     [\<lparr>number = 9, title = ''Snyk vulnerability [X-9]'',
       labels = [''snyk-vulnerability'', ''help wanted''], state = ''open'', body = ''old''\<rparr>,
      \<lparr>number = 4, title = ''Another issue'', labels = [], state = ''open'', body = ''text''\<rparr>]"

text \<open>
  A report with a licence finding, whose identifier holds a dot, and a tracker with
  two open issues for one identifier.
\<close>

definition licence_report :: report where
  "licence_report =
     [\<lparr>projectName = ''foo'', displayTargetFile = ''yarn.lock'',
       vulnerabilities = [\<lparr>id' = Some ''snyk:lic:npm:foo:MPL-2.0'', description' = Some ''text''\<rparr>]\<rparr>]"

definition twin_tracker :: tracker where
  "twin_tracker =
     [\<lparr>number = 9, title = ''Snyk vulnerability [X-9]'',
       labels = [''snyk-vulnerability'', ''help wanted''], state = ''open'', body = ''old''\<rparr>,
      \<lparr>number = 8, title = ''Snyk vulnerability [X-9]'',
       labels = [''snyk-vulnerability'', ''help wanted''], state = ''open'', body = ''old''\<rparr>]"


text \<open>
  A report in which the second of three findings has the name of a method of every
  object for its identifier, and a report whose first finding of \<open>X-1\<close> has no
  description.
\<close>

definition member_report :: report where
  "member_report =
     [\<lparr>projectName = ''pkgA'', displayTargetFile = ''lock1'',
       vulnerabilities = [\<lparr>id' = Some ''X-1'', description' = Some ''first text''\<rparr>,
                          \<lparr>id' = Some ''toString'', description' = Some ''text''\<rparr>,
                          \<lparr>id' = Some ''Y-2'', description' = Some ''text''\<rparr>]\<rparr>]"

definition late_description_report :: report where
  "late_description_report =
     [\<lparr>projectName = ''pkgA'', displayTargetFile = ''lock1'',
       vulnerabilities = [\<lparr>id' = Some ''X-1'', description' = None\<rparr>,
                          \<lparr>id' = Some ''X-1'', description' = Some ''second text''\<rparr>]\<rparr>]"

text \<open>
  A tracker with an open issue for \<open>X-1\<close> and one for \<open>X-9\<close>, and a report with \<open>X-1\<close> and
  the identifier of scenario 1: one UPDATE, one CREATE and one CLOSE.
\<close>

definition mixed_tracker :: tracker where
  "mixed_tracker =
     [\<lparr>number = 9, title = ''Snyk vulnerability [X-9]'',
       labels = [''snyk-vulnerability'', ''help wanted''], state = ''open'', body = ''old''\<rparr>,
      \<lparr>number = 7, title = ''Snyk vulnerability [X-1]'',
       labels = [''snyk-vulnerability'', ''help wanted''], state = ''open'', body = ''old''\<rparr>]"

definition mixed_report :: report where
  "mixed_report = scenario_2 @ scenario_1"

definition scenario_2_record :: vulnerability where
  "scenario_2_record =
     \<lparr>description = ''first text'',
      packages = [\<lparr>name = ''pkgA'', target = ''lock1''\<rparr>, \<lparr>name = ''pkgB'', target = ''lock2''\<rparr>],
      snykId = ''X-1''\<rparr>"


section \<open>Properties of objects\<close>

lemma map_of_obj_set: "map_of (obj_set k v obj) = (map_of obj)(k \<mapsto> v)"
  by (induction obj) (auto simp: fun_eq_iff)

lemma obj_get_obj_set:
  "obj_get (obj_set k v obj) k' = (if k' = k then Some v else obj_get obj k')"
  by (simp add: obj_get_def map_of_obj_set)

lemma keys_obj_set:
  "obj_keys (obj_set k v obj) =
     (if k \<in> set (obj_keys obj) then obj_keys obj else obj_keys obj @ [k])"
  unfolding obj_keys_def by (induction obj) (force+)

lemma obj_get_keys: "obj_get obj k = None \<longleftrightarrow> k \<notin> set (obj_keys obj)"
  by (simp add: obj_get_def obj_keys_def map_of_eq_None_iff)

lemma distinct_keys_obj_set:
  "distinct (obj_keys obj) \<Longrightarrow> distinct (obj_keys (obj_set k v obj))"
  by (simp add: keys_obj_set)


section \<open>Properties of the grouping\<close>

lemma set_first_seen: "set (first_seen xs) = set xs"
  by (induction xs) auto

lemma distinct_first_seen: "distinct (first_seen xs)"
  by (induction xs) (auto simp: distinct_removeAll)

lemma first_seen_snoc:
  "first_seen (xs @ [x]) = (if x \<in> set xs then first_seen xs else first_seen xs @ [x])"
  by (induction xs) (auto simp: set_first_seen)

lemma set_dedup_sub: "set (dedup_by_name ps) \<subseteq> set ps"
  by (induction ps) auto

lemma name_in_dedup: "q \<in> set ps \<Longrightarrow> name q \<in> name ` set (dedup_by_name ps)"
proof (induction ps)
  case Nil
  then show ?case by simp
next
  case (Cons p ps)
  show ?case
  proof (cases "name q = name p")
    case True
    then show ?thesis by simp
  next
    case False
    with Cons have "q \<in> set ps" by auto
    from Cons.IH [OF this] obtain r where "r \<in> set (dedup_by_name ps)" "name r = name q"
      by auto
    with False show ?thesis by (auto simp: image_iff)
  qed
qed

lemma set_dedup_names: "name ` set (dedup_by_name ps) = name ` set ps"
  using set_dedup_sub [of ps] name_in_dedup [of _ ps] by blast

lemma dedup_by_name_snoc:
  "dedup_by_name (ps @ [p]) =
     (if name p \<in> name ` set ps then dedup_by_name ps else dedup_by_name ps @ [p])"
proof (induction ps)
  case Nil
  then show ?case by simp
next
  case (Cons q ps)
  have "name p \<in> name ` set ps \<longleftrightarrow> name p \<in> name ` set (dedup_by_name ps)"
    by (simp add: set_dedup_names)
  with Cons show ?case by auto
qed


lemma scan_from_append:
  "scan_from s (xs @ ys) =
     (case scan_from s xs of
        (s', Some e) \<Rightarrow> (s', Some e)
      | (s', None) \<Rightarrow> scan_from s' ys)"
  by (induction s xs rule: scan_from.induct) (auto split: sum.splits)

lemma add_findings_scan:
  "add_findings pn tf s fs = scan_from s (map (\<lambda>f. (pn, tf, f)) fs)"
  by (induction fs arbitrary: s) (auto split: sum.splits)

lemma scan_Cons:
  "scan (p # rep) =
     map (\<lambda>f. (projectName p, displayTargetFile p, f)) (vulnerabilities p) @ scan rep"
  by (simp add: scan_def)

lemma add_projects_scan: "add_projects s rep = scan_from s (scan rep)"
proof (induction rep arbitrary: s)
  case Nil
  then show ?case by (simp add: scan_def)
next
  case (Cons p rep)
  then show ?case
    by (simp add: scan_Cons scan_from_append add_findings_scan split: prod.splits option.splits)
qed

lemma grouping_scan: "grouping rep = scan_from [] (scan rep)"
  by (simp add: grouping_def add_projects_scan)

lemma obj_read_own: "obj_get S i = Some v \<Longrightarrow> obj_read S i = Own v"
  by (simp add: obj_read_def obj_get_def)

lemma obj_read_undefined: "obj_get S i = None \<Longrightarrow> \<not> inherited i \<Longrightarrow> obj_read S i = Undefined"
  by (simp add: obj_read_def obj_get_def)

lemma obj_read_inherited: "obj_get S i = None \<Longrightarrow> inherited i \<Longrightarrow> obj_read S i = Inherited"
  by (simp add: obj_read_def obj_get_def)

lemma obj_read_Undefined_iff:
  "obj_read S i = Undefined \<longleftrightarrow> obj_get S i = None \<and> \<not> inherited i"
  by (simp add: obj_read_def obj_get_def split: option.splits)

lemma grouped_record_None: "grouped_record es k = None \<longleftrightarrow> k \<notin> occ_id ` set es"
proof -
  have "filter (\<lambda>e. occ_id e = k) es = [] \<longleftrightarrow> k \<notin> occ_id ` set es"
    by (auto simp: filter_empty_conv)
  then show ?thesis by (auto simp: grouped_record_def split: list.splits)
qed

lemma grouped_record_snoc:
  "grouped_record (es @ [e]) k =
     (if occ_id e \<noteq> k then grouped_record es k
      else case grouped_record es k of
             None \<Rightarrow> Some \<lparr>description = occ_description e, packages = [occ_package e], snykId = k\<rparr>
           | Some v \<Rightarrow>
               Some (if name (occ_package e) \<in> name ` set (packages v) then v
                     else v\<lparr>packages := packages v @ [occ_package e]\<rparr>))"
proof (cases "occ_id e = k")
  case False
  then show ?thesis by (simp add: grouped_record_def)
next
  case True
  show ?thesis
  proof (cases "filter (\<lambda>e. occ_id e = k) es")
    case Nil
    with True show ?thesis by (simp add: grouped_record_def)
  next
    case (Cons e0 rest)
    have "dedup_by_name (map occ_package (e0 # rest) @ [occ_package e]) =
           (if name (occ_package e) \<in> name ` set (dedup_by_name (map occ_package (e0 # rest)))
            then dedup_by_name (map occ_package (e0 # rest))
            else dedup_by_name (map occ_package (e0 # rest)) @ [occ_package e])"
      by (simp only: dedup_by_name_snoc set_dedup_names)
    with True Cons show ?thesis by (simp add: grouped_record_def)
  qed
qed

text \<open>
  The invariant of the grouping loop: while no finding names an inherited member, the
  loop does not throw, and after any prefix of the scan the store holds, for the
  occurrences seen so far, the keys in first-seen order and the record that
  \<open>grouped_record\<close> describes.
\<close>

lemma scan_from_snoc:
  assumes "scan_from [] xs = (S, None)"
  shows "scan_from [] (xs @ [(pn, tf, f)]) =
           (case add_finding pn tf S f of Inl e \<Rightarrow> (S, Some e) | Inr S' \<Rightarrow> (S', None))"
  using assms by (simp add: scan_from_append split: sum.splits)

lemma safe_invariant:
  "list_all safe xs \<Longrightarrow>
     snd (scan_from [] xs) = None
     \<and> obj_keys (fst (scan_from [] xs)) = first_seen (map occ_id (occurrences_of xs))
     \<and> (\<forall>k. obj_get (fst (scan_from [] xs)) k = grouped_record (occurrences_of xs) k)"
proof (induction xs rule: rev_induct)
  case Nil
  then show ?case by (simp add: obj_keys_def obj_get_def occurrences_of_def grouped_record_def)
next
  case (snoc x xs)
  obtain pn tf f where x: "x = (pn, tf, f)" by (cases x) auto
  define S where "S = fst (scan_from [] xs)"
  define es where "es = occurrences_of xs"
  from snoc.prems have all: "list_all safe xs" and sx: "safe (pn, tf, f)"
    by (simp_all add: x)
  from snoc.IH [OF all] have none: "scan_from [] xs = (S, None)"
    and keys: "obj_keys S = first_seen (map occ_id es)"
    and get: "\<And>k. obj_get S k = grouped_record es k"
    by (simp_all add: S_def es_def prod_eq_iff)
  note step = scan_from_snoc [OF none, of pn tf f, folded x]
  show ?case
  proof (cases "\<exists>i d. id' f = Some i \<and> description' f = Some d")
    case False
    then have "add_finding pn tf S f = Inr S"
      by (auto simp: add_finding_def split: option.splits)
    moreover from False have "occurrences_of (xs @ [x]) = es"
      by (auto simp: occurrences_of_def es_def x split: option.splits)
    ultimately show ?thesis unfolding step using keys get by simp
  next
    case True
    then obtain i d where f: "id' f = Some i" "description' f = Some d" by auto
    from sx have ni: "\<not> inherited i" by (simp add: safe_def f)
    define e where "e = \<lparr>occ_id = i, occ_description = d, occ_package = \<lparr>name = pn, target = tf\<rparr>\<rparr>"
    have occ: "occurrences_of (xs @ [x]) = es @ [e]"
      by (simp add: occurrences_of_def es_def x f e_def)
    show ?thesis
    proof (cases "obj_get S i")
      case None
      define S' where
        "S' = obj_set i \<lparr>description = d, packages = [\<lparr>name = pn, target = tf\<rparr>], snykId = i\<rparr> S"
      from None ni have new: "add_finding pn tf S f = Inr S'"
        by (simp add: add_finding_def f obj_read_undefined S'_def)
      from None have notin: "i \<notin> set (obj_keys S)" by (simp add: obj_get_keys)
      then have notin': "i \<notin> set (map occ_id es)" by (simp add: keys set_first_seen)
      have k: "obj_keys S' = first_seen (map occ_id (es @ [e]))"
        using notin notin' by (simp add: S'_def keys_obj_set first_seen_snoc keys e_def)
      have g: "obj_get S' k = grouped_record (es @ [e]) k" for k
      proof (cases "k = i")
        case True
        with None get [of i] show ?thesis
          by (simp add: S'_def obj_get_obj_set grouped_record_snoc e_def)
      next
        case False
        then show ?thesis
          by (simp add: S'_def obj_get_obj_set grouped_record_snoc e_def get)
      qed
      show ?thesis unfolding step occ new using k g by simp
    next
      case (Some v)
      then have isin: "i \<in> set (obj_keys S)" using obj_get_keys [of S i] by simp
      then have "i \<in> set (map occ_id es)" by (simp add: keys set_first_seen)
      then have fs: "first_seen (map occ_id (es @ [e])) = first_seen (map occ_id es)"
        by (simp add: first_seen_snoc e_def)
      have ex: "list_ex (\<lambda>p. name p = pn) (packages v) \<longleftrightarrow> pn \<in> name ` set (packages v)"
        by (auto simp: list_ex_iff)
      define S' where
        "S' = (if pn \<in> name ` set (packages v) then S
               else obj_set i (v\<lparr>packages := packages v @ [\<lparr>name = pn, target = tf\<rparr>]\<rparr>) S)"
      have upd: "add_finding pn tf S f = Inr S'"
        by (simp add: add_finding_def f obj_read_own [OF Some] ex S'_def)
      have k: "obj_keys S' = first_seen (map occ_id (es @ [e]))"
        using isin fs by (simp add: S'_def keys_obj_set keys)
      have g: "obj_get S' k = grouped_record (es @ [e]) k" for k
        using Some get [of i] get [of k]
        by (auto simp: S'_def obj_get_obj_set grouped_record_snoc e_def)
      show ?thesis unfolding step occ upd using k g by simp
    qed
  qed
qed

lemma takeWhile_all: "list_all P xs \<Longrightarrow> takeWhile P xs = xs"
  by (induction xs) auto

lemma safe_occurrences:
  "list_all safe xs \<longleftrightarrow> list_all (\<lambda>e. \<not> inherited (occ_id e)) (occurrences_of xs)"
  by (induction xs) (auto simp: safe_def occurrences_of_def split: option.splits)

lemma plain_ids_safe: "plain_ids rep \<longleftrightarrow> list_all safe (scan rep)"
  by (simp add: plain_ids_def occurrences_def safe_occurrences)

lemma unsafe_throws:
  assumes "\<not> safe (pn, tf, f)" and "\<forall>k\<in>set (obj_keys S). \<not> inherited k"
  shows "add_finding pn tf S f = Inl TypeError"
proof -
  from assms(1) obtain i d where f: "id' f = Some i" "description' f = Some d" and i: "inherited i"
    by (auto simp: safe_def split: option.splits)
  from i assms(2) have "obj_get S i = None" by (auto simp: obj_get_keys)
  with i have "obj_read S i = Inherited" by (rule obj_read_inherited [rotated])
  then show ?thesis by (simp add: add_finding_def f)
qed

lemma scan_from_general:
  "scan_from [] xs =
     (fst (scan_from [] (takeWhile safe xs)), if list_all safe xs then None else Some TypeError)"
proof (cases "list_all safe xs")
  case True
  then have t: "takeWhile safe xs = xs" by (rule takeWhile_all)
  show ?thesis unfolding t using True safe_invariant [OF True] by (simp add: prod_eq_iff)
next
  case False
  define ys where "ys = takeWhile safe xs"
  define S where "S = fst (scan_from [] ys)"
  have ays: "list_all safe ys"
    by (auto simp: ys_def list_all_iff dest: set_takeWhileD)
  from False have "dropWhile safe xs \<noteq> []" by (auto simp: list_all_iff)
  then obtain x rest where d: "dropWhile safe xs = x # rest" by (cases "dropWhile safe xs") auto
  then have nx: "\<not> safe x" using hd_dropWhile [of safe xs] by auto
  obtain pn tf f where x: "x = (pn, tf, f)" by (cases x) auto
  have xs: "xs = ys @ (pn, tf, f) # rest"
    using takeWhile_dropWhile_id [of safe xs] by (simp add: ys_def d x)
  from safe_invariant [OF ays] have none: "scan_from [] ys = (S, None)"
    and keys: "obj_keys S = first_seen (map occ_id (occurrences_of ys))"
    by (simp_all add: S_def prod_eq_iff)
  from ays have "list_all (\<lambda>e. \<not> inherited (occ_id e)) (occurrences_of ys)"
    by (simp only: safe_occurrences)
  then have "\<forall>e\<in>set (occurrences_of ys). \<not> inherited (occ_id e)"
    by (simp only: list_all_iff)
  then have "\<forall>k\<in>set (obj_keys S). \<not> inherited k"
    by (auto simp: keys set_first_seen)
  with nx have "add_finding pn tf S f = Inl TypeError"
    unfolding x by (rule unsafe_throws)
  then have "scan_from [] xs = (S, Some TypeError)"
    by (subst xs) (simp add: scan_from_append none)
  with False show ?thesis by (simp add: S_def ys_def)
qed

lemma grouping_error_plain:
  "grouping_error rep = (if plain_ids rep then None else Some TypeError)"
  by (subst grouping_error_def, subst grouping_scan, subst scan_from_general)
     (simp add: plain_ids_safe)

lemma group_seen:
  "obj_keys (group_vulnerabilities rep) = first_seen (map occ_id (seen rep))
   \<and> (\<forall>k. obj_get (group_vulnerabilities rep) k = grouped_record (seen rep) k)"
proof -
  have a: "list_all safe (takeWhile safe (scan rep))"
    by (auto simp: list_all_iff dest: set_takeWhileD)
  have "group_vulnerabilities rep = fst (scan_from [] (takeWhile safe (scan rep)))"
    by (subst group_vulnerabilities_def, subst grouping_scan, subst scan_from_general) simp
  with safe_invariant [OF a] show ?thesis by (simp add: seen_def)
qed

lemma group_keys:
  "obj_keys (group_vulnerabilities rep) = first_seen (map occ_id (seen rep))"
  using group_seen [of rep] by simp

lemma group_get:
  "obj_get (group_vulnerabilities rep) k = grouped_record (seen rep) k"
  using group_seen [of rep] by simp

lemma seen_plain: "plain_ids rep \<Longrightarrow> seen rep = occurrences rep"
  by (simp add: seen_def occurrences_def plain_ids_safe takeWhile_all)

lemma seen_not_inherited: "e \<in> set (seen rep) \<Longrightarrow> \<not> inherited (occ_id e)"
proof -
  have "list_all safe (takeWhile safe (scan rep))"
    by (auto simp: list_all_iff dest: set_takeWhileD)
  then have "list_all (\<lambda>e. \<not> inherited (occ_id e)) (seen rep)"
    by (simp add: seen_def safe_occurrences)
  then show "e \<in> set (seen rep) \<Longrightarrow> \<not> inherited (occ_id e)"
    by (simp add: list_all_iff)
qed

lemma group_key_not_inherited:
  "k \<in> set (obj_keys (group_vulnerabilities rep)) \<Longrightarrow> \<not> inherited k"
  using seen_not_inherited [of _ rep] by (auto simp: group_keys set_first_seen)

lemma occurrences_of_append:
  "occurrences_of (xs @ ys) = occurrences_of xs @ occurrences_of ys"
  by (simp add: occurrences_of_def)

lemma scan_append: "scan (rep @ rep2) = scan rep @ scan rep2"
  by (simp add: scan_def)

lemma seen_append: "\<exists>zs. seen (rep @ rep2) = seen rep @ zs"
proof (cases "list_all safe (scan rep)")
  case True
  then have a: "takeWhile safe (scan rep @ scan rep2) = scan rep @ takeWhile safe (scan rep2)"
    by (simp add: list_all_iff)
  from True have t: "takeWhile safe (scan rep) = scan rep" by (rule takeWhile_all)
  show ?thesis unfolding seen_def scan_append a t occurrences_of_append by blast
next
  case False
  then obtain x where "x \<in> set (scan rep)" "\<not> safe x" by (auto simp: list_all_iff)
  then have "takeWhile safe (scan rep @ scan rep2) = takeWhile safe (scan rep)"
    by (rule takeWhile_append1)
  then show ?thesis by (simp add: seen_def scan_append)
qed




lemma occurrences_append: "occurrences (rep @ rep2) = occurrences rep @ occurrences rep2"
  by (simp add: occurrences_def occurrences_of_def scan_def)

lemma count_list_distinct:
  "distinct xs \<Longrightarrow> count_list xs x = (if x \<in> set xs then 1 else 0)"
  by (induction xs) auto

lemma find_filter_head: "find P xs = Some e \<Longrightarrow> \<exists>rest. filter P xs = e # rest"
  by (induction xs) (auto split: if_splits)

lemma find_filter:
  "find P xs = (case filter P xs of [] \<Rightarrow> None | x # rest \<Rightarrow> Some x)"
  by (induction xs) auto

lemma grouped_record_description:
  "map_option description (grouped_record es k)
     = map_option occ_description (find (\<lambda>e. occ_id e = k) es)"
  by (simp add: grouped_record_def find_filter split: list.splits)

lemma find_occurrence_finding:
  "map_option occ_description (find (\<lambda>e. occ_id e = k) (occurrences_of xs))
     = Option.bind (find (\<lambda>f. id' f = Some k \<and> description' f \<noteq> None) (map (\<lambda>x. snd (snd x)) xs))
         description'"
  by (induction xs) (auto simp: occurrences_of_def split: option.splits)




text \<open>
  C10, as stated, fails. The first finding with the identifier \<open>X-1\<close> has no
  description and is skipped; the stored description is the one of the second finding.
\<close>

theorem description_not_of_first_finding:
  "first_finding late_description_report ''X-1'' = Some \<lparr>id' = Some ''X-1'', description' = None\<rparr>
   \<and> grouping_error late_description_report = None
   \<and> map_option description (obj_get (group_vulnerabilities late_description_report) ''X-1'')
       = Some ''second text''"
  by code_simp

text \<open>
  C10, amended. When no identifier of the report names an inherited member, the
  description stored for an identifier is the description of the first finding in scan
  order that carries the identifier and a description. For every report, findings
  scanned later leave a stored description as it is, whatever their description.
\<close>

theorem description_of_first_occurrence:
  "(plain_ids rep \<longrightarrow>
      map_option description (obj_get (group_vulnerabilities rep) k)
        = Option.bind (first_complete_finding rep k) description')
   \<and> (obj_get (group_vulnerabilities rep) k \<noteq> None \<longrightarrow>
      map_option description (obj_get (group_vulnerabilities (rep @ later)) k)
        = map_option description (obj_get (group_vulnerabilities rep) k))"
proof (intro conjI impI)
  assume "plain_ids rep"
  then have "seen rep = occurrences_of (scan rep)"
    by (simp add: seen_plain occurrences_def)
  then show "map_option description (obj_get (group_vulnerabilities rep) k)
        = Option.bind (first_complete_finding rep k) description'"
    by (simp only: group_get grouped_record_description find_occurrence_finding
        first_complete_finding_def findings_def)
next
  assume "obj_get (group_vulnerabilities rep) k \<noteq> None"
  then obtain e rest where f: "filter (\<lambda>e. occ_id e = k) (seen rep) = e # rest"
    by (auto simp: group_get grouped_record_def split: list.splits)
  obtain zs where "seen (rep @ later) = seen rep @ zs"
    using seen_append by blast
  with f show "map_option description (obj_get (group_vulnerabilities (rep @ later)) k)
        = map_option description (obj_get (group_vulnerabilities rep) k)"
    by (simp add: group_get grouped_record_def)
qed

theorem description_of_first_occurrence_witness:
  "map_option description (obj_get (group_vulnerabilities scenario_2) ''X-1'') = Some ''first text''
   \<and> map_option description (obj_get (group_vulnerabilities (scenario_2 @ scenario_2)) ''X-1'')
       = Some ''first text''
   \<and> map_option description (obj_get (group_vulnerabilities late_description_report) ''X-1'')
       = Some ''second text''"
proof -
  have p: "plain_ids scenario_2"
    by (simp add: plain_ids_def occurrences_def occurrences_of_def scan_def scenario_2_def
        inherited_def object_prototype_members_def)
  have p': "plain_ids late_description_report"
    by (simp add: plain_ids_def occurrences_def occurrences_of_def scan_def
        late_description_report_def inherited_def object_prototype_members_def)
  have f: "Option.bind (first_complete_finding scenario_2 ''X-1'') description' = Some ''first text''"
    by (simp add: first_complete_finding_def findings_def scan_def scenario_2_def)
  have f': "Option.bind (first_complete_finding late_description_report ''X-1'') description'
              = Some ''second text''"
    by (simp add: first_complete_finding_def findings_def scan_def late_description_report_def)
  note t = description_of_first_occurrence [of scenario_2 "''X-1''" scenario_2]
  note t' = description_of_first_occurrence [of late_description_report "''X-1''" "[]"]
  from t p f have a: "map_option description (obj_get (group_vulnerabilities scenario_2) ''X-1'')
                 = Some ''first text''"
    by simp
  from t' p' f' have b:
    "map_option description (obj_get (group_vulnerabilities late_description_report) ''X-1'')
       = Some ''second text''"
    by simp
  from a have ne: "obj_get (group_vulnerabilities scenario_2) ''X-1'' \<noteq> None" by auto
  from t [THEN conjunct2, THEN mp, OF ne] a
  have c: "map_option description (obj_get (group_vulnerabilities (scenario_2 @ scenario_2)) ''X-1'')
       = Some ''first text''"
    by (rule trans)
  from a c b show ?thesis by (intro conjI)
qed

section \<open>Properties of the issue body\<close>

lemma lines_of_nonempty: "lines_of s \<noteq> []"
  by (induction s) auto

lemma lines_of_append_nl: "lines_of (a @ CHR 0x0A # b) = lines_of a @ lines_of b"
proof (induction a)
  case Nil
  then show ?case by simp
next
  case (Cons c a)
  then show ?case
    using lines_of_nonempty [of a] by (cases "lines_of a") auto
qed

lemma lines_of_single: "CHR 0x0A \<notin> set s \<Longrightarrow> lines_of s = [s]"
  by (induction s) auto

lemma lines_of_join:
  "xs \<noteq> [] \<Longrightarrow> \<forall>x\<in>set xs. CHR 0x0A \<notin> set x \<Longrightarrow> lines_of (js_join nl xs) = xs"
proof (induction xs)
  case Nil
  then show ?case by simp
next
  case (Cons x xs)
  show ?case
  proof (cases xs)
    case Nil
    with Cons.prems show ?thesis by (simp add: lines_of_single)
  next
    case (Cons y ys)
    with Cons.IH Cons.prems have "lines_of (js_join nl (y # ys)) = y # ys" by simp
    with Cons.prems Cons show ?thesis
      by (simp add: nl_def lines_of_append_nl lines_of_single)
  qed
qed

lemma lines_of_nl_append: "lines_of (nl @ b) = [] # lines_of b"
  by (simp add: nl_def)

lemma lines_of_append_nl_append: "lines_of (a @ nl @ b) = lines_of a @ lines_of b"
  by (simp add: nl_def lines_of_append_nl)

lemma lines_of_append_nl_end: "lines_of (a @ nl) = lines_of a @ [[]]"
  using lines_of_append_nl [of a "[]"] by (simp add: nl_def)

lemma bullet_nl_free:
  "CHR 0x0A \<notin> set (name p) \<Longrightarrow> CHR 0x0A \<notin> set (target p) \<Longrightarrow> CHR 0x0A \<notin> set (bullet p)"
  by (simp add: bullet_def)

lemma lines_of_body:
  assumes "packages v \<noteq> []"
    and "\<forall>p\<in>set (packages v). CHR 0x0A \<notin> set (name p) \<and> CHR 0x0A \<notin> set (target p)"
  shows "lines_of (generateIssueBody v) =
          [[], ''## Affecting Packages/Plugins'', []] @ map bullet (packages v)
          @ [[]] @ lines_of (description v) @ [[]]"
proof -
  let ?bs = "map bullet (packages v)"
  let ?h = "''## Affecting Packages/Plugins''"
  from assms have ne: "?bs \<noteq> []" by simp
  from assms have free: "\<forall>x\<in>set ?bs. CHR 0x0A \<notin> set x"
    by (auto simp: bullet_nl_free)
  have j: "lines_of (js_join nl ?bs) = ?bs"
    using ne free by (rule lines_of_join)
  have h: "lines_of ?h = [?h]"
    by (rule lines_of_single) simp
  have "lines_of (generateIssueBody v) =
          [] # lines_of (?h @ nl @ nl @ js_join nl ?bs @ nl @ nl @ description v @ nl)"
    unfolding generateIssueBody_def by (rule lines_of_nl_append)
  also have "lines_of (?h @ nl @ nl @ js_join nl ?bs @ nl @ nl @ description v @ nl)
      = lines_of ?h @ lines_of (nl @ js_join nl ?bs @ nl @ nl @ description v @ nl)"
    by (rule lines_of_append_nl_append)
  also have "lines_of (nl @ js_join nl ?bs @ nl @ nl @ description v @ nl)
      = [] # lines_of (js_join nl ?bs @ nl @ nl @ description v @ nl)"
    by (rule lines_of_nl_append)
  also have "lines_of (js_join nl ?bs @ nl @ nl @ description v @ nl)
      = lines_of (js_join nl ?bs) @ lines_of (nl @ description v @ nl)"
    by (rule lines_of_append_nl_append)
  also have "lines_of (nl @ description v @ nl) = [] # lines_of (description v @ nl)"
    by (rule lines_of_nl_append)
  also have "lines_of (description v @ nl) = lines_of (description v) @ [[]]"
    by (rule lines_of_append_nl_end)
  finally show ?thesis
    by (simp only: j h append_Cons append_Nil)
qed

lemma bullet_fun: "bullet = (\<lambda>p. ''* ['' @ name p @ '']('' @ target p @ '')'')"
  by (rule ext) (simp add: bullet_def)

text \<open>
  C8. The body is a function of the packages and the description of the record alone. It
  is the heading, the bullets joined by newlines and the description, each part set off
  by an empty line; every name, target and description is copied as it is. When the
  record has a package and no name or target holds a newline, the body has exactly one
  bullet line per package, in order, between the heading and the description.
\<close>

theorem issue_body_rendering:
  "generateIssueBody v =
     nl @ ''## Affecting Packages/Plugins'' @ nl @ nl
     @ js_join nl (map (\<lambda>p. ''* ['' @ name p @ '']('' @ target p @ '')'') (packages v))
     @ nl @ nl @ description v @ nl
   \<and> (packages w = packages v \<and> description w = description v \<longrightarrow>
        generateIssueBody w = generateIssueBody v)
   \<and> (packages v \<noteq> []
        \<and> (\<forall>p\<in>set (packages v). CHR 0x0A \<notin> set (name p) \<and> CHR 0x0A \<notin> set (target p)) \<longrightarrow>
        lines_of (generateIssueBody v) =
          [[], ''## Affecting Packages/Plugins'', []]
          @ map (\<lambda>p. ''* ['' @ name p @ '']('' @ target p @ '')'') (packages v)
          @ [[]] @ lines_of (description v) @ [[]])"
proof (intro conjI impI)
  show "generateIssueBody v =
     nl @ ''## Affecting Packages/Plugins'' @ nl @ nl
     @ js_join nl (map (\<lambda>p. ''* ['' @ name p @ '']('' @ target p @ '')'') (packages v))
     @ nl @ nl @ description v @ nl"
    unfolding generateIssueBody_def bullet_fun ..
next
  assume "packages w = packages v \<and> description w = description v"
  then show "generateIssueBody w = generateIssueBody v"
    by (simp add: generateIssueBody_def)
next
  assume a: "packages v \<noteq> []
        \<and> (\<forall>p\<in>set (packages v). CHR 0x0A \<notin> set (name p) \<and> CHR 0x0A \<notin> set (target p))"
  then show "lines_of (generateIssueBody v) =
          [[], ''## Affecting Packages/Plugins'', []]
          @ map (\<lambda>p. ''* ['' @ name p @ '']('' @ target p @ '')'') (packages v)
          @ [[]] @ lines_of (description v) @ [[]]"
    using lines_of_body [of v] unfolding bullet_fun by (elim conjE) simp
qed

lemma example_record_simps:
  "packages example_record = [\<lparr>name = ''pkg_A'', target = ''a/yarn.lock''\<rparr>,
                  \<lparr>name = ''pkg[B]'', target = ''b''\<rparr>]"
  "description example_record = ''Use of *eval* in _x_ <b>''"
  "description (example_record\<lparr>snykId := ''Y''\<rparr>) = description example_record"
  "packages (example_record\<lparr>snykId := ''Y''\<rparr>) = packages example_record"
  by (simp_all add: example_record_def)

theorem issue_body_rendering_witness:
  "lines_of (generateIssueBody example_record) =
     [[], ''## Affecting Packages/Plugins'', [],
      ''* [pkg_A](a/yarn.lock)'', ''* [pkg[B]](b)'', [], ''Use of *eval* in _x_ <b>'', []]
   \<and> generateIssueBody (example_record\<lparr>snykId := ''Y''\<rparr>) = generateIssueBody example_record"
proof -
  note t = issue_body_rendering [of example_record "example_record\<lparr>snykId := ''Y''\<rparr>"]
  have d: "lines_of ''Use of *eval* in _x_ <b>'' = [''Use of *eval* in _x_ <b>'']"
    by (rule lines_of_single) simp
  have p: "packages example_record \<noteq> []
        \<and> (\<forall>p\<in>set (packages example_record). CHR 0x0A \<notin> set (name p) \<and> CHR 0x0A \<notin> set (target p))"
    by (simp add: example_record_simps)
  from t [THEN conjunct2, THEN conjunct2] p
  have "lines_of (generateIssueBody example_record) =
          [[], ''## Affecting Packages/Plugins'', []]
          @ map (\<lambda>p. ''* ['' @ name p @ '']('' @ target p @ '')'') (packages example_record)
          @ [[]] @ lines_of (description example_record) @ [[]]"
    by (rule mp)
  then have a: "lines_of (generateIssueBody example_record) =
     [[], ''## Affecting Packages/Plugins'', [],
      ''* [pkg_A](a/yarn.lock)'', ''* [pkg[B]](b)'', [], ''Use of *eval* in _x_ <b>'', []]"
    by (simp only: example_record_simps d list.map append_Cons append_Nil package.simps)
  have q: "packages (example_record\<lparr>snykId := ''Y''\<rparr>) = packages example_record
           \<and> description (example_record\<lparr>snykId := ''Y''\<rparr>) = description example_record"
    by (simp add: example_record_simps)
  from t [THEN conjunct2, THEN conjunct1] q
  have "generateIssueBody (example_record\<lparr>snykId := ''Y''\<rparr>) = generateIssueBody example_record"
    by (rule mp)
  with a show ?thesis by (rule conjI)
qed


section \<open>Properties of the enumeration and of the index\<close>

lemma set_object_entries: "set (object_entries obj) = set obj"
  by (auto simp: object_entries_def)





lemma foldl_foldl_concat: "foldl (foldl f) a xss = foldl f a (concat xss)"
  by (induction xss arbitrary: a) simp_all

lemma distinct_keys_index_issue: "distinct (obj_keys (fst acc)) \<Longrightarrow> distinct (obj_keys (fst (index_issue acc i)))"
  by (auto simp: index_issue_def distinct_keys_obj_set split: option.splits)

lemma distinct_keys_foldl_index:
  "distinct (obj_keys (fst acc)) \<Longrightarrow> distinct (obj_keys (fst (foldl index_issue acc is)))"
  by (induction "is" arbitrary: acc) (simp_all add: distinct_keys_index_issue)

lemma distinct_keys_fetch: "distinct (obj_keys (fst (fetchSnykGithubIssueMap pages)))"
proof -
  have "distinct (obj_keys (fst (([], []) :: nat js_object \<times> string list)))"
    by (simp add: obj_keys_def)
  then show ?thesis
    unfolding fetchSnykGithubIssueMap_def foldl_foldl_concat
    by (rule distinct_keys_foldl_index)
qed

lemma distinct_keys_group: "distinct (obj_keys (group_vulnerabilities rep))"
  by (simp add: group_keys distinct_first_seen)

lemma match_here_Some:
  "match_here s = Some t \<Longrightarrow>
     t \<noteq> [] \<and> list_all id_char t \<and> (\<exists>post. s = ''['' @ t @ '']'' @ post)"
proof -
  assume a: "match_here s = Some t"
  then obtain rest where s: "s = CHR ''['' # rest"
    and t: "t = takeWhile id_char rest" and ne: "t \<noteq> []"
    and d: "take 1 (dropWhile id_char rest) = '']''"
    by (auto simp: match_here_def split: list.splits if_splits)
  from d obtain post where p: "dropWhile id_char rest = CHR '']'' # post"
    by (cases "dropWhile id_char rest") auto
  have "rest = takeWhile id_char rest @ dropWhile id_char rest" by simp
  with p t have "rest = t @ '']'' @ post" by simp
  moreover have "list_all id_char t"
    unfolding t by (simp add: list_all_iff) (meson set_takeWhileD)
  ultimately show ?thesis using s ne by simp
qed

lemma not_id_char_bracket: "\<not> id_char CHR '']''"
  by (simp add: id_char_def)

lemma match_here_token:
  assumes "tok \<noteq> []" "list_all id_char tok"
  shows "match_here (''['' @ tok @ '']'' @ post) = Some tok"
proof -
  have "takeWhile id_char (tok @ CHR '']'' # post) = tok"
    using assms(2) not_id_char_bracket by (simp add: list_all_iff takeWhile_append2 takeWhile_tail)
  moreover have "dropWhile id_char (tok @ CHR '']'' # post) = CHR '']'' # post"
    using assms(2) not_id_char_bracket by (simp add: list_all_iff dropWhile_append2)
  ultimately show ?thesis using assms(1) by (simp add: match_here_def)
qed

lemma exec_Some_token: "SNYK_ID_REGEX_exec s = Some t \<Longrightarrow> has_bracketed_token s t"
proof (induction s)
  case Nil
  then show ?case by simp
next
  case (Cons c cs)
  show ?case
  proof (cases "match_here (c # cs)")
    case None
    with Cons have "has_bracketed_token cs t" by simp
    then obtain pre post where "cs = pre @ ''['' @ t @ '']'' @ post" "t \<noteq> []" "list_all id_char t"
      by (auto simp: has_bracketed_token_def)
    then have "c # cs = (c # pre) @ ''['' @ t @ '']'' @ post" by simp
    with \<open>t \<noteq> []\<close> \<open>list_all id_char t\<close> show ?thesis
      unfolding has_bracketed_token_def by blast
  next
    case (Some u)
    with Cons.prems have "u = t" by simp
    with Some match_here_Some [of "c # cs" t] obtain post where
      "t \<noteq> []" "list_all id_char t" "c # cs = [] @ ''['' @ t @ '']'' @ post" by auto
    then show ?thesis unfolding has_bracketed_token_def by blast
  qed
qed

lemma exec_append_token:
  assumes "tok \<noteq> []" "list_all id_char tok"
  shows "SNYK_ID_REGEX_exec (pre @ ''['' @ tok @ '']'' @ post) \<noteq> None"
proof (induction pre)
  case Nil
  from match_here_token [OF assms, of post] show ?case by simp
next
  case (Cons c pre)
  then show ?case by (cases "match_here (c # pre @ ''['' @ tok @ '']'' @ post)") auto
qed

lemma exec_iff_token: "SNYK_ID_REGEX_exec s \<noteq> None \<longleftrightarrow> (\<exists>tok. has_bracketed_token s tok)"
proof
  assume "SNYK_ID_REGEX_exec s \<noteq> None"
  then obtain t where "SNYK_ID_REGEX_exec s = Some t" by auto
  then show "\<exists>tok. has_bracketed_token s tok" using exec_Some_token by blast
next
  assume "\<exists>tok. has_bracketed_token s tok"
  then obtain tok pre post where "tok \<noteq> []" "list_all id_char tok" "s = pre @ ''['' @ tok @ '']'' @ post"
    by (auto simp: has_bracketed_token_def)
  then show "SNYK_ID_REGEX_exec s \<noteq> None" using exec_append_token by simp
qed

lemma exec_nonempty: "SNYK_ID_REGEX_exec s = Some t \<Longrightarrow> t \<noteq> []"
  using exec_Some_token [of s t] by (simp add: has_bracketed_token_def)

lemma index_issue_cases:
  "index_issue acc i =
     (case SNYK_ID_REGEX_exec (title i) of
        Some t \<Rightarrow> (obj_set t (number i) (fst acc), snd acc)
      | None \<Rightarrow> (fst acc, snd acc @ [''Unmatched Snyk ID for '' @ title i]))"
  by (auto simp: index_issue_def exec_nonempty split: option.splits)

lemma matched_snoc:
  "matched (xs @ [i]) =
     matched xs @ (case SNYK_ID_REGEX_exec (title i) of Some t \<Rightarrow> [(t, number i)] | None \<Rightarrow> [])"
  by (simp add: matched_def)

lemma index_invariant:
  fixes xs :: "issue list"
  defines "r \<equiv> foldl index_issue ([], []) xs"
  shows "obj_keys (fst r) = first_seen (map fst (matched xs))
         \<and> (\<forall>k. obj_get (fst r) k = map_of (rev (matched xs)) k)
         \<and> snd r = map (\<lambda>i. ''Unmatched Snyk ID for '' @ title i) (unmatched xs)"
  unfolding r_def
proof (induction xs rule: rev_induct)
  case Nil
  then show ?case by (simp add: obj_keys_def obj_get_def matched_def unmatched_def)
next
  case (snoc i xs)
  define r where "r = foldl index_issue ([], []) xs"
  from snoc have keys: "obj_keys (fst r) = first_seen (map fst (matched xs))"
    and get: "\<And>k. obj_get (fst r) k = map_of (rev (matched xs)) k"
    and log: "snd r = map (\<lambda>i. ''Unmatched Snyk ID for '' @ title i) (unmatched xs)"
    by (simp_all add: r_def)
  have step: "foldl index_issue ([], []) (xs @ [i]) = index_issue r i"
    by (simp add: r_def)
  show ?case
  proof (cases "SNYK_ID_REGEX_exec (title i)")
    case None
    then show ?thesis
      unfolding step using keys get log
      by (simp add: index_issue_cases matched_snoc unmatched_def)
  next
    case (Some t)
    have "t \<in> set (obj_keys (fst r)) \<longleftrightarrow> t \<in> set (map fst (matched xs))"
      by (simp add: keys set_first_seen)
    then have k: "obj_keys (obj_set t (number i) (fst r)) = first_seen (map fst (matched xs @ [(t, number i)]))"
      by (simp add: keys_obj_set first_seen_snoc keys)
    have g: "obj_get (obj_set t (number i) (fst r)) k = map_of (rev (matched xs @ [(t, number i)])) k" for k
      by (simp add: obj_get_obj_set get)
    from Some k g log show ?thesis
      unfolding step by (simp add: index_issue_cases matched_snoc unmatched_def)
  qed
qed

lemma fetch_keys:
  "obj_keys (fst (fetchSnykGithubIssueMap pages)) = first_seen (map fst (matched (concat pages)))"
  using index_invariant [of "concat pages"]
  by (simp add: fetchSnykGithubIssueMap_def foldl_foldl_concat)

lemma fetch_get:
  "obj_get (fst (fetchSnykGithubIssueMap pages)) k = map_of (rev (matched (concat pages))) k"
  using index_invariant [of "concat pages"]
  by (simp add: fetchSnykGithubIssueMap_def foldl_foldl_concat)

lemma fetch_log:
  "snd (fetchSnykGithubIssueMap pages)
     = map (\<lambda>i. ''Unmatched Snyk ID for '' @ title i) (unmatched (concat pages))"
  using index_invariant [of "concat pages"]
  by (simp add: fetchSnykGithubIssueMap_def foldl_foldl_concat)

lemma matched_mem:
  "(k, n) \<in> set (matched xs) \<longleftrightarrow>
     (\<exists>i\<in>set xs. SNYK_ID_REGEX_exec (title i) = Some k \<and> number i = n)"
  by (induction xs) (auto simp: matched_def split: option.splits)

lemma fetch_get_Some:
  assumes "obj_get (fst (fetchSnykGithubIssueMap pages)) k = Some n"
  shows "\<exists>i\<in>set (concat pages). SNYK_ID_REGEX_exec (title i) = Some k \<and> number i = n"
proof -
  from assms have "map_of (rev (matched (concat pages))) k = Some n"
    by (simp add: fetch_get)
  then have "(k, n) \<in> set (rev (matched (concat pages)))"
    by (rule map_of_SomeD)
  then have "(k, n) \<in> set (matched (concat pages))" by simp
  then show ?thesis by (simp add: matched_mem)
qed

lemma example_titles:
  "SNYK_ID_REGEX_exec ''Snyk vulnerability [snyk-js-Abc:1]'' = Some ''snyk-js-Abc:1''"
  "SNYK_ID_REGEX_exec ''no identifier [a b]'' = None"
  "SNYK_ID_REGEX_exec ''Snyk vulnerability [X-1]'' = Some ''X-1''"
  by (simp_all add: match_here_def id_char_def)

lemma example_matched:
  "matched (concat example_pages) = [(''snyk-js-Abc:1'', 5), (''X-1'', 7)]"
  by (simp add: matched_def example_pages_def match_here_def id_char_def)

lemma example_unmatched:
  "map title (unmatched (concat example_pages)) = [''no identifier [a b]'']"
  by (simp add: unmatched_def example_pages_def match_here_def id_char_def)

text \<open>
  C4. Extraction from a title succeeds exactly when the title holds a bracketed,
  non-empty run of letters of either case, digits, \<open>-\<close> and \<open>:\<close>, and then the captured
  text is such a run of the title, character for character. The keys of the index are
  the captured identifiers in first-seen order, each once, so identifiers and entries
  correspond one to one; an entry holds the number of the last listed issue with its
  identifier, so issues that share an identifier share the entry, and an issue whose
  identifier no other issue has is the value of its entry. For every title without an
  identifier one line is written, the issue adds nothing to the index, and the issues
  listed after it are indexed all the same.
\<close>

theorem identifier_extraction_and_index:
  "(SNYK_ID_REGEX_exec ttl \<noteq> None \<longleftrightarrow> (\<exists>tok. has_bracketed_token ttl tok))
   \<and> (SNYK_ID_REGEX_exec ttl = Some t \<longrightarrow> has_bracketed_token ttl t)
   \<and> obj_keys (fst (fetchSnykGithubIssueMap pages)) = first_seen (map fst (matched (concat pages)))
   \<and> count_list (obj_keys (fst (fetchSnykGithubIssueMap pages))) k
       = (if k \<in> fst ` set (matched (concat pages)) then 1 else 0)
   \<and> obj_get (fst (fetchSnykGithubIssueMap pages)) k = map_of (rev (matched (concat pages))) k
   \<and> (i \<in> set (concat pages) \<and> SNYK_ID_REGEX_exec (title i) = Some t \<longrightarrow>
        obj_get (fst (fetchSnykGithubIssueMap pages)) t \<noteq> None
        \<and> (distinct (map fst (matched (concat pages))) \<longrightarrow>
             obj_get (fst (fetchSnykGithubIssueMap pages)) t = Some (number i)))
   \<and> snd (fetchSnykGithubIssueMap pages)
       = map (\<lambda>i. ''Unmatched Snyk ID for '' @ title i) (unmatched (concat pages))"
proof -
  have own: "obj_get (fst (fetchSnykGithubIssueMap pages)) t \<noteq> None
        \<and> (distinct (map fst (matched (concat pages))) \<longrightarrow>
             obj_get (fst (fetchSnykGithubIssueMap pages)) t = Some (number i))"
    if "i \<in> set (concat pages) \<and> SNYK_ID_REGEX_exec (title i) = Some t"
  proof -
    from that have m: "(t, number i) \<in> set (rev (matched (concat pages)))"
      by (auto simp: matched_mem)
    then have "t \<in> fst ` set (rev (matched (concat pages)))" by force
    then have "map_of (rev (matched (concat pages))) t \<noteq> None"
      by (simp only: map_of_eq_None_iff not_not)
    moreover have "map_of (rev (matched (concat pages))) t = Some (number i)"
      if "distinct (map fst (matched (concat pages)))"
      using that m by (intro map_of_is_SomeI) (simp_all add: rev_map [symmetric])
    ultimately show ?thesis by (simp add: fetch_get)
  qed
  have "count_list (obj_keys (fst (fetchSnykGithubIssueMap pages))) k
       = (if k \<in> fst ` set (matched (concat pages)) then 1 else 0)"
    using distinct_keys_fetch [of pages]
    by (simp add: count_list_distinct fetch_keys set_first_seen)
  then show ?thesis
    using exec_iff_token [of ttl] exec_Some_token [of ttl t]
          fetch_keys [of pages] fetch_get [of pages k] fetch_log [of pages] own
    by blast
qed

theorem identifier_extraction_and_index_witness:
  "SNYK_ID_REGEX_exec ''Snyk vulnerability [snyk-js-Abc:1]'' \<noteq> None
   \<and> has_bracketed_token ''Snyk vulnerability [snyk-js-Abc:1]'' ''snyk-js-Abc:1''
   \<and> obj_keys (fst (fetchSnykGithubIssueMap example_pages)) = [''snyk-js-Abc:1'', ''X-1'']
   \<and> count_list (obj_keys (fst (fetchSnykGithubIssueMap example_pages))) ''snyk-js-Abc:1'' = 1
   \<and> obj_get (fst (fetchSnykGithubIssueMap example_pages)) ''snyk-js-Abc:1'' = Some 5
   \<and> obj_get (fst (fetchSnykGithubIssueMap example_pages)) ''SNYK-JS-ABC:1'' = None
   \<and> snd (fetchSnykGithubIssueMap example_pages) = [''Unmatched Snyk ID for no identifier [a b]'']"
proof -
  have e: "SNYK_ID_REGEX_exec ''Snyk vulnerability [snyk-js-Abc:1]'' = Some ''snyk-js-Abc:1''"
    by (simp add: match_here_def id_char_def)
  have u: "unmatched (concat example_pages) =
             [\<lparr>number = 6, title = ''no identifier [a b]'',
               labels = [''snyk-vulnerability''], state = ''open'', body = ''old''\<rparr>]"
    by (simp add: unmatched_def example_pages_def match_here_def id_char_def)
  note t1 = identifier_extraction_and_index
      [of "''Snyk vulnerability [snyk-js-Abc:1]''" "''snyk-js-Abc:1''" example_pages "''snyk-js-Abc:1''"
          "hd (hd example_pages)"]
  note t2 = identifier_extraction_and_index
      [of "''Snyk vulnerability [snyk-js-Abc:1]''" "''snyk-js-Abc:1''" example_pages "''SNYK-JS-ABC:1''"
          "hd (hd example_pages)"]
  from t1 e have a: "has_bracketed_token ''Snyk vulnerability [snyk-js-Abc:1]'' ''snyk-js-Abc:1''"
    by blast
  from t1 have b: "obj_keys (fst (fetchSnykGithubIssueMap example_pages)) = [''snyk-js-Abc:1'', ''X-1'']"
    and c: "count_list (obj_keys (fst (fetchSnykGithubIssueMap example_pages))) ''snyk-js-Abc:1'' = 1"
    and d: "obj_get (fst (fetchSnykGithubIssueMap example_pages)) ''snyk-js-Abc:1'' = Some 5"
    and l: "snd (fetchSnykGithubIssueMap example_pages) = [''Unmatched Snyk ID for no identifier [a b]'']"
    by (simp_all add: example_matched u)
  from t2 have f: "obj_get (fst (fetchSnykGithubIssueMap example_pages)) ''SNYK-JS-ABC:1'' = None"
    by (simp add: example_matched)
  from e a b c d f l show ?thesis by simp
qed


section \<open>Properties of the operations and of the script\<close>

lemma main_calls_Create:
  "(k, Create v) \<in> set (main_calls idx store) \<Longrightarrow> (k, v) \<in> set store"
  by (auto simp: main_calls_def set_object_entries split: lookup.splits if_splits)

lemma group_entry_snykId:
  assumes "(k, v) \<in> set (group_vulnerabilities rep)"
  shows "snykId v = k"
proof -
  have "distinct (map fst (group_vulnerabilities rep))"
    using distinct_keys_group [of rep] by (simp add: obj_keys_def)
  with assms have "obj_get (group_vulnerabilities rep) k = Some v"
    by (simp add: obj_get_def)
  then show ?thesis
    by (auto simp: group_get grouped_record_def split: list.splits)
qed

text \<open>
  C7. For every CREATE that the reconciliation of a report decides for an identifier
  \<open>k\<close>, the request has the title \<open>Snyk vulnerability [k]\<close>, exactly the labels
  \<open>snyk-vulnerability\<close> and \<open>help wanted\<close>, and the rendered body of the record; the tracker
  then holds a new open issue with this title, these labels and this body.
\<close>

theorem created_issue_fields:
  "(k, Create v) \<in> set (main_calls idx (group_vulnerabilities rep)) \<longrightarrow>
     snd (perform False (Create v)) =
       [IssuesCreate \<lparr>c_owner = ''backstage'', c_repo = ''backstage'',
                      c_title = ''Snyk vulnerability ['' @ k @ '']'',
                      c_labels = [''snyk-vulnerability'', ''help wanted''],
                      c_body = generateIssueBody v\<rparr>]
     \<and> tracker_after tr (snd (perform False (Create v))) =
         \<lparr>number = next_number tr, title = ''Snyk vulnerability ['' @ k @ '']'',
          labels = [''snyk-vulnerability'', ''help wanted''], state = ''open'',
          body = generateIssueBody v\<rparr> # tr"
proof
  assume "(k, Create v) \<in> set (main_calls idx (group_vulnerabilities rep))"
  then have "snykId v = k"
    using main_calls_Create group_entry_snykId by blast
  then show "snd (perform False (Create v)) =
       [IssuesCreate \<lparr>c_owner = ''backstage'', c_repo = ''backstage'',
                      c_title = ''Snyk vulnerability ['' @ k @ '']'',
                      c_labels = [''snyk-vulnerability'', ''help wanted''],
                      c_body = generateIssueBody v\<rparr>]
     \<and> tracker_after tr (snd (perform False (Create v))) =
         \<lparr>number = next_number tr, title = ''Snyk vulnerability ['' @ k @ '']'',
          labels = [''snyk-vulnerability'', ''help wanted''], state = ''open'',
          body = generateIssueBody v\<rparr> # tr"
    by (simp add: createGithubIssue_def tracker_after_def GH_OWNER_def GH_REPO_def SNYK_GH_LABEL_def)
qed

lemma scenario_1_group:
  "group_vulnerabilities scenario_1 = [(''SNYK-JS-LODASH-1234'', scenario_1_record)]"
  by code_simp

lemma scenario_1_calls:
  "main_calls (fst (fetchSnykGithubIssueMap [])) (group_vulnerabilities scenario_1)
     = [(''SNYK-JS-LODASH-1234'', Create scenario_1_record)]"
  by code_simp

theorem created_issue_fields_witness:
  "snd (perform False (Create scenario_1_record)) =
       [IssuesCreate \<lparr>c_owner = ''backstage'', c_repo = ''backstage'',
                      c_title = ''Snyk vulnerability [SNYK-JS-LODASH-1234]'',
                      c_labels = [''snyk-vulnerability'', ''help wanted''],
                      c_body = generateIssueBody scenario_1_record\<rparr>]
   \<and> tracker_after [] (snd (perform False (Create scenario_1_record))) =
         [\<lparr>number = 1, title = ''Snyk vulnerability [SNYK-JS-LODASH-1234]'',
           labels = [''snyk-vulnerability'', ''help wanted''], state = ''open'',
           body = generateIssueBody scenario_1_record\<rparr>]"
proof -
  have m: "(''SNYK-JS-LODASH-1234'', Create scenario_1_record)
        \<in> set (main_calls (fst (fetchSnykGithubIssueMap [])) (group_vulnerabilities scenario_1))"
    by (simp only: scenario_1_calls list.set insertI1)
  have n: "next_number [] = 1" by (simp add: next_number_def)
  from created_issue_fields
         [of "''SNYK-JS-LODASH-1234''" scenario_1_record "fst (fetchSnykGithubIssueMap [])"
             scenario_1 "[]"] m
  have "snd (perform False (Create scenario_1_record)) =
       [IssuesCreate \<lparr>c_owner = ''backstage'', c_repo = ''backstage'',
                      c_title = ''Snyk vulnerability ['' @ ''SNYK-JS-LODASH-1234'' @ '']'',
                      c_labels = [''snyk-vulnerability'', ''help wanted''],
                      c_body = generateIssueBody scenario_1_record\<rparr>]
     \<and> tracker_after [] (snd (perform False (Create scenario_1_record))) =
         \<lparr>number = next_number [], title = ''Snyk vulnerability ['' @ ''SNYK-JS-LODASH-1234'' @ '']'',
          labels = [''snyk-vulnerability'', ''help wanted''], state = ''open'',
          body = generateIssueBody scenario_1_record\<rparr> # []"
    by (rule mp)
  then show ?thesis
    unfolding n append_Cons append_Nil .
qed

lemma perform_request_of: "snd (perform False c) = [request_of c]"
  by (cases c)
     (simp_all add: createGithubIssue_def updateGithubIssue_def closeGithubIssue_def
        GH_OWNER_def GH_REPO_def SNYK_GH_LABEL_def)

lemma perform_dry_run: "snd (perform True c) = []"
  by (cases c) (simp_all add: createGithubIssue_def updateGithubIssue_def closeGithubIssue_def)

lemma perform_log: "fst (perform d c) = decision_log c"
  by (cases c) (simp_all add: createGithubIssue_def updateGithubIssue_def closeGithubIssue_def)

lemma run_calls_dry:
  "run_calls True ok n cs = \<lparr>console = concat (map decision_log cs), sent = [], thrown = None\<rparr>"
  by (induction cs) (simp_all add: perform_dry_run perform_log)

lemma run_calls_live:
  "\<forall>n. ok n \<Longrightarrow>
     run_calls False ok n cs =
       \<lparr>console = concat (map decision_log cs), sent = map request_of cs, thrown = None\<rparr>"
  by (induction cs arbitrary: n) (simp_all add: perform_request_of perform_log)

lemma run_calls_all_succeed:
  "\<forall>n. ok n \<Longrightarrow>
     run_calls d ok n cs =
       \<lparr>console = concat (map decision_log cs),
        sent = (if d then [] else map request_of cs), thrown = None\<rparr>"
  by (cases d) (simp_all add: run_calls_dry run_calls_live)

lemma takeWhile_all_ok: "\<forall>n. ok n \<Longrightarrow> takeWhile ok xs = xs"
  by (induction xs) auto

lemma main_all_succeed:
  assumes "\<forall>n. ok n"
  shows "main d ok tr rep =
     (case grouping_error rep of
        Some e \<Rightarrow> \<lparr>console = index_log tr, sent = listing_requests tr, thrown = Some e\<rparr>
      | None \<Rightarrow>
          \<lparr>console = index_log tr @ concat (map decision_log (map snd (plan tr rep))),
           sent = listing_requests tr
                  @ (if d then [] else map request_of (map snd (plan tr rep))),
           thrown = None\<rparr>)"
  by (simp add: main_def Let_def takeWhile_all_ok [OF assms] run_calls_all_succeed [OF assms]
      grouping_error_def group_vulnerabilities_def plan_def issue_index_def index_log_def
      listing_requests_def split: option.splits)

lemma main_dry_sent:
  "list_all (\<lambda>q. q = ListForRepo listing) (sent (main True ok tr rep))"
  by (simp add: main_def Let_def run_calls_dry list_all_iff split: option.splits)

lemma main_sent_nonempty: "sent (main d ok tr rep) \<noteq> []"
  by (simp add: main_def Let_def split: option.splits)

lemma run_calls_thrown:
  "thrown (run_calls d ok n cs) =
     (if d \<or> (\<forall>i<length cs. ok (n + i)) then None else Some RequestError)"
proof (cases d)
  case True
  then show ?thesis by (simp add: run_calls_dry)
next
  case False
  have "thrown (run_calls False ok n cs)
          = (if \<forall>i<length cs. ok (n + i) then None else Some RequestError)"
  proof (induction cs arbitrary: n)
    case Nil
    show ?case by simp
  next
    case (Cons c cs)
    have "(\<forall>i<Suc (length cs). ok (n + i)) \<longleftrightarrow> ok n \<and> (\<forall>i<length cs. ok (Suc n + i))"
      by (simp add: All_less_Suc2)
    with Cons show ?case by (simp add: perform_request_of Let_def)
  qed
  with False show ?thesis by simp
qed

lemma length_takeWhile_less:
  "length (takeWhile P xs) < length xs \<longleftrightarrow> (\<exists>x\<in>set xs. \<not> P x)"
  by (induction xs) auto

lemma main_thrown:
  "thrown (main d ok tr rep) =
     (if \<exists>n<length (listing_requests tr). \<not> ok n then Some RequestError
      else if \<not> plain_ids rep then Some TypeError
      else if d \<or> (\<forall>i<length (plan tr rep). ok (length (listing_requests tr) + i)) then None
      else Some RequestError)"
proof -
  define asked where "asked = max 1 (length (list_for_repo listing tr))"
  have l: "length (listing_requests tr) = asked"
    by (simp add: listing_requests_def asked_def)
  have g: "length (takeWhile ok [0..<asked]) < asked \<longleftrightarrow> (\<exists>n<asked. \<not> ok n)"
    using length_takeWhile_less [of ok "[0..<asked]"] by auto
  have e: "snd (grouping rep) = (if plain_ids rep then None else Some TypeError)"
    using grouping_error_plain [of rep] by (simp add: grouping_error_def)
  have p: "length (main_calls (fst (fetchSnykGithubIssueMap (list_for_repo listing tr)))
             (fst (grouping rep))) = length (plan tr rep)"
    by (simp add: plan_def issue_index_def group_vulnerabilities_def)
  show ?thesis
    unfolding l main_def Let_def asked_def [symmetric]
    by (auto simp: g e run_calls_thrown p)
qed

text \<open>
  C9. Without the token the script ends with exit code 1 and the message on the error
  stream; it has written nothing else and sent no request, whatever the tracker and the
  report hold. A request is sent only when the token is set and not empty. With the
  token, the exit code is 0 when \<open>main\<close> ends without an error and 1 when it throws;
  \<open>main\<close> throws when a request of the listing is rejected, when an identifier of the
  report names an inherited member, and when the run is not dry and the request of a
  planned call is rejected.
\<close>

theorem missing_token_exits_first:
  "script None isDryRun ok tr rep =
     \<lparr>exit_code = 1, stdout = [],
      stderr = [Message ''GITHUB_TOKEN is not set. Please provide a Github token''],
      requests = []\<rparr>
   \<and> (requests (script tok isDryRun ok tr rep) = [] \<longleftrightarrow> tok = None \<or> tok = Some [])
   \<and> exit_code (script tok isDryRun ok tr rep)
       = (if tok = None \<or> tok = Some [] then 1
          else case thrown (main isDryRun ok tr rep) of None \<Rightarrow> 0 | Some e \<Rightarrow> 1)
   \<and> thrown (main isDryRun ok tr rep)
       = (if \<exists>n<length (listing_requests tr). \<not> ok n then Some RequestError
          else if \<not> plain_ids rep then Some TypeError
          else if isDryRun
                  \<or> (\<forall>i<length (plan tr rep). ok (length (listing_requests tr) + i)) then None
          else Some RequestError)"
proof -
  have "exit_code (script tok isDryRun ok tr rep)
       = (if tok = None \<or> tok = Some [] then 1
          else case thrown (main isDryRun ok tr rep) of None \<Rightarrow> 0 | Some e \<Rightarrow> 1)"
    by (simp add: script_def Let_def split: option.splits)
  moreover have "requests (script tok isDryRun ok tr rep) = [] \<longleftrightarrow> tok = None \<or> tok = Some []"
    by (simp add: script_def Let_def main_sent_nonempty split: option.splits)
  moreover have "script None isDryRun ok tr rep =
     \<lparr>exit_code = 1, stdout = [],
      stderr = [Message ''GITHUB_TOKEN is not set. Please provide a Github token''],
      requests = []\<rparr>"
    by (simp add: script_def)
  ultimately show ?thesis
    using main_thrown [of isDryRun ok tr rep] by blast
qed

theorem missing_token_exits_first_witness:
  "script None False all_succeed example_tracker scenario_1 =
     \<lparr>exit_code = 1, stdout = [],
      stderr = [Message ''GITHUB_TOKEN is not set. Please provide a Github token''],
      requests = []\<rparr>
   \<and> requests (script (Some ''token'') False all_succeed example_tracker scenario_1) \<noteq> []
   \<and> exit_code (script (Some []) False all_succeed example_tracker scenario_1) = 1
   \<and> exit_code (script (Some ''token'') False all_succeed example_tracker scenario_1) = 0
   \<and> exit_code (script (Some ''token'') False all_succeed example_tracker member_report) = 1
   \<and> exit_code (script (Some ''token'') False first_succeeds example_tracker scenario_1) = 1
   \<and> exit_code (script (Some ''token'') True first_succeeds example_tracker scenario_1) = 0"
proof -
  have l: "length (listing_requests example_tracker) = 1"
    by code_simp
  have p: "length (plan example_tracker scenario_1) = 2"
    by code_simp
  have pl: "plain_ids scenario_1" "\<not> plain_ids member_report"
    by code_simp+
  note t = missing_token_exits_first
  from t [of False all_succeed example_tracker scenario_1 "Some ''token''"]
       t [of False all_succeed example_tracker scenario_1 "Some []"]
       t [of False all_succeed example_tracker member_report "Some ''token''"]
       t [of False first_succeeds example_tracker scenario_1 "Some ''token''"]
       t [of True first_succeeds example_tracker scenario_1 "Some ''token''"]
  show ?thesis
    by (auto simp: l p pl all_succeed_def first_succeeds_def intro: exI [of _ 0])
qed

lemma all_succeed_all: "\<forall>n. all_succeed n"
  by (simp add: all_succeed_def)

lemma plain_mixed_report: "plain_ids mixed_report"
  by code_simp

lemma mixed_plan:
  "plan mixed_tracker mixed_report
     = [(''X-1'', Update 7 scenario_2_record),
        (''SNYK-JS-LODASH-1234'', Create scenario_1_record),
        (''X-9'', Close 9)]"
  by code_simp

lemma mixed_index_log: "index_log mixed_tracker = []"
  by code_simp

lemma mixed_listing: "listing_requests mixed_tracker = [ListForRepo listing]"
  by code_simp

lemma mixed_log:
  "concat [decision_log (Update 7 scenario_2_record), decision_log (Create scenario_1_record),
           decision_log (Close 9)]
     = [''Update Github Issue #7 for Snky Vulnerability X-1'',
        ''Create Github Issue for Snyk Vulnerability SNYK-JS-LODASH-1234'',
        ''- foo [yarn.lock]'',
        ''Closing Github Issue #9'']"
  by code_simp

text \<open>
  C5. A dry run sends requests for the listing and no other, whether requests succeed
  or not. When every request succeeds, the dry run and the run that is not dry write
  the same lines and end alike. If moreover the grouping does not throw, these lines
  are the lines of the index and, for every planned call in order, the lines that name
  the decision: the identifier and the packages of a CREATE, the issue number and the
  identifier of an UPDATE, the issue number of a CLOSE; and the run that is not dry
  sends, after the listing, exactly the requests of the planned calls in order. The
  whole script differs only in the notice that a dry run prints first.
\<close>

theorem dry_run_same_plan_no_mutation:
  "list_all (\<lambda>q. q = ListForRepo listing) (sent (main True ok tr rep))
   \<and> ((\<forall>n. ok n) \<longrightarrow>
        console (main True ok tr rep) = console (main False ok tr rep)
        \<and> thrown (main True ok tr rep) = thrown (main False ok tr rep)
        \<and> sent (main True ok tr rep) = listing_requests tr
        \<and> (plain_ids rep \<longrightarrow>
             console (main True ok tr rep)
               = index_log tr @ concat (map decision_log (map snd (plan tr rep)))
             \<and> sent (main False ok tr rep)
                 = listing_requests tr @ map request_of (map snd (plan tr rep))
             \<and> thrown (main False ok tr rep) = None))
   \<and> (tok \<noteq> None \<and> tok \<noteq> Some [] \<longrightarrow>
        list_all (\<lambda>q. q = ListForRepo listing) (requests (script tok True ok tr rep))
        \<and> ((\<forall>n. ok n) \<longrightarrow>
             tl (stdout (script tok True ok tr rep)) = stdout (script tok False ok tr rep)))"
proof -
  have a: "list_all (\<lambda>q. q = ListForRepo listing) (sent (main True ok tr rep))"
    by (rule main_dry_sent)
  have b: "console (main True ok tr rep) = console (main False ok tr rep)
        \<and> thrown (main True ok tr rep) = thrown (main False ok tr rep)
        \<and> sent (main True ok tr rep) = listing_requests tr"
    if "\<forall>n. ok n"
    by (simp add: main_all_succeed [OF that] split: option.splits)
  have c: "console (main True ok tr rep)
               = index_log tr @ concat (map decision_log (map snd (plan tr rep)))
             \<and> sent (main False ok tr rep)
                 = listing_requests tr @ map request_of (map snd (plan tr rep))
             \<and> thrown (main False ok tr rep) = None"
    if "\<forall>n. ok n" "plain_ids rep"
    using that(2) by (simp add: main_all_succeed [OF that(1)] grouping_error_plain)
  have d: "list_all (\<lambda>q. q = ListForRepo listing) (requests (script tok True ok tr rep))"
    if "tok \<noteq> None \<and> tok \<noteq> Some []"
    using that a by (simp add: script_def Let_def split: option.splits)
  have e: "tl (stdout (script tok True ok tr rep)) = stdout (script tok False ok tr rep)"
    if "tok \<noteq> None \<and> tok \<noteq> Some []" "\<forall>n. ok n"
    using that(1) b [OF that(2)] by (auto simp: script_def Let_def split: option.splits)
  from a b c d e show ?thesis by blast
qed

theorem dry_run_same_plan_no_mutation_witness:
  "sent (main True all_succeed mixed_tracker mixed_report) = [ListForRepo listing]
   \<and> sent (main False all_succeed mixed_tracker mixed_report)
       = [ListForRepo listing, request_of (Update 7 scenario_2_record),
          request_of (Create scenario_1_record), request_of (Close 9)]
   \<and> console (main True all_succeed mixed_tracker mixed_report)
       = [''Update Github Issue #7 for Snky Vulnerability X-1'',
          ''Create Github Issue for Snyk Vulnerability SNYK-JS-LODASH-1234'',
          ''- foo [yarn.lock]'',
          ''Closing Github Issue #9'']
   \<and> console (main False all_succeed mixed_tracker mixed_report)
       = [''Update Github Issue #7 for Snky Vulnerability X-1'',
          ''Create Github Issue for Snyk Vulnerability SNYK-JS-LODASH-1234'',
          ''- foo [yarn.lock]'',
          ''Closing Github Issue #9'']
   \<and> list_all (\<lambda>q. q = ListForRepo listing)
        (requests (script (Some ''token'') True all_succeed mixed_tracker mixed_report))"
proof -
  note t = dry_run_same_plan_no_mutation [of all_succeed mixed_tracker mixed_report "Some ''token''"]
  have k: "Some ''token'' \<noteq> None \<and> Some ''token'' \<noteq> Some []" by simp
  note u = t [THEN conjunct2, THEN conjunct1, THEN mp, OF all_succeed_all]
  note v = u [THEN conjunct2, THEN conjunct2, THEN conjunct2, THEN mp, OF plain_mixed_report,
              unfolded mixed_plan mixed_index_log mixed_listing list.map snd_conv mixed_log
                append_Nil append_Cons]
  note t3 = u [THEN conjunct2, THEN conjunct2, unfolded mixed_listing, THEN conjunct1]
  note t5 = t [THEN conjunct2, THEN conjunct2, THEN mp, OF k, THEN conjunct1]
  from u [THEN conjunct1] v [THEN conjunct1]
  have "console (main False all_succeed mixed_tracker mixed_report)
       = [''Update Github Issue #7 for Snky Vulnerability X-1'',
          ''Create Github Issue for Snyk Vulnerability SNYK-JS-LODASH-1234'',
          ''- foo [yarn.lock]'',
          ''Closing Github Issue #9'']"
    by (rule trans [OF sym])
  with t3 v [THEN conjunct2, THEN conjunct1] v [THEN conjunct1] t5
  show ?thesis by (intro conjI)
qed







lemma tracker_apply_update_body:
  "tracker_apply tr (request_of (Update n v))
     = map (\<lambda>i. if number i = n then i\<lparr>body := generateIssueBody v\<rparr> else i) tr"
  by (simp add: apply_update_def)

lemma tracker_apply_close:
  "tracker_apply tr (request_of (Close n))
     = map (\<lambda>i. if number i = n then i\<lparr>state := ''closed''\<rparr> else i) tr"
  by (simp add: apply_update_def)

text \<open>
  C6. The request of an UPDATE carries the issue number and the body and no title,
  labels or state; on the tracker the issue of that number gets the new body and every
  number, title, label list and state stays. The request of a CLOSE carries the number
  and the state \<open>closed\<close> only; the issue of that number is closed and every number,
  title, label list and body stays.
\<close>

theorem update_and_close_change_one_field:
  "snd (updateGithubIssue False n v) =
     [IssuesUpdate \<lparr>u_owner = ''backstage'', u_repo = ''backstage'', u_issue_number = n,
                    u_title = None, u_body = Some (generateIssueBody v),
                    u_state = None, u_labels = None\<rparr>]
   \<and> tracker_after tr (snd (updateGithubIssue False n v))
       = map (\<lambda>i. if number i = n then i\<lparr>body := generateIssueBody v\<rparr> else i) tr
   \<and> map (\<lambda>i. (number i, title i, labels i, state i)) (tracker_after tr (snd (updateGithubIssue False n v)))
       = map (\<lambda>i. (number i, title i, labels i, state i)) tr
   \<and> snd (closeGithubIssue False n) =
     [IssuesUpdate \<lparr>u_owner = ''backstage'', u_repo = ''backstage'', u_issue_number = n,
                    u_title = None, u_body = None,
                    u_state = Some ''closed'', u_labels = None\<rparr>]
   \<and> tracker_after tr (snd (closeGithubIssue False n))
       = map (\<lambda>i. if number i = n then i\<lparr>state := ''closed''\<rparr> else i) tr
   \<and> map (\<lambda>i. (number i, title i, labels i, body i)) (tracker_after tr (snd (closeGithubIssue False n)))
       = map (\<lambda>i. (number i, title i, labels i, body i)) tr"
proof -
  have u: "snd (updateGithubIssue False n v) = [request_of (Update n v)]"
    using perform_request_of [of "Update n v"] by simp
  have c: "snd (closeGithubIssue False n) = [request_of (Close n)]"
    using perform_request_of [of "Close n"] by simp
  have ua: "tracker_after tr (snd (updateGithubIssue False n v))
       = map (\<lambda>i. if number i = n then i\<lparr>body := generateIssueBody v\<rparr> else i) tr"
    by (simp only: u tracker_after_def foldl.simps tracker_apply_update_body)
  have ca: "tracker_after tr (snd (closeGithubIssue False n))
       = map (\<lambda>i. if number i = n then i\<lparr>state := ''closed''\<rparr> else i) tr"
    by (simp only: c tracker_after_def foldl.simps tracker_apply_close)
  have uf: "map (\<lambda>i. (number i, title i, labels i, state i)) (tracker_after tr (snd (updateGithubIssue False n v)))
       = map (\<lambda>i. (number i, title i, labels i, state i)) tr"
    unfolding ua by (induction tr) auto
  have cf: "map (\<lambda>i. (number i, title i, labels i, body i)) (tracker_after tr (snd (closeGithubIssue False n)))
       = map (\<lambda>i. (number i, title i, labels i, body i)) tr"
    unfolding ca by (induction tr) auto
  from u c ua ca uf cf show ?thesis by simp
qed

theorem update_and_close_change_one_field_witness:
  "tracker_after example_tracker (snd (updateGithubIssue False 9 scenario_1_record))
     = [\<lparr>number = 9, title = ''Snyk vulnerability [X-9]'',
         labels = [''snyk-vulnerability'', ''help wanted''], state = ''open'',
         body = generateIssueBody scenario_1_record\<rparr>,
        \<lparr>number = 4, title = ''Another issue'', labels = [], state = ''open'', body = ''text''\<rparr>]
   \<and> tracker_after example_tracker (snd (closeGithubIssue False 9))
     = [\<lparr>number = 9, title = ''Snyk vulnerability [X-9]'',
         labels = [''snyk-vulnerability'', ''help wanted''], state = ''closed'', body = ''old''\<rparr>,
        \<lparr>number = 4, title = ''Another issue'', labels = [], state = ''open'', body = ''text''\<rparr>]"
proof -
  note t = update_and_close_change_one_field [of 9 scenario_1_record example_tracker]
  have u: "map (\<lambda>i. if number i = 9 then i\<lparr>body := generateIssueBody scenario_1_record\<rparr> else i)
             example_tracker
     = [\<lparr>number = 9, title = ''Snyk vulnerability [X-9]'',
         labels = [''snyk-vulnerability'', ''help wanted''], state = ''open'',
         body = generateIssueBody scenario_1_record\<rparr>,
        \<lparr>number = 4, title = ''Another issue'', labels = [], state = ''open'', body = ''text''\<rparr>]"
    by (simp add: example_tracker_def)
  have c: "map (\<lambda>i. if number i = 9 then i\<lparr>state := ''closed''\<rparr> else i) example_tracker
     = [\<lparr>number = 9, title = ''Snyk vulnerability [X-9]'',
         labels = [''snyk-vulnerability'', ''help wanted''], state = ''closed'', body = ''old''\<rparr>,
        \<lparr>number = 4, title = ''Another issue'', labels = [], state = ''open'', body = ''text''\<rparr>]"
    by (simp add: example_tracker_def)
  from t [THEN conjunct2, THEN conjunct1] u
  have a: "tracker_after example_tracker (snd (updateGithubIssue False 9 scenario_1_record))
     = [\<lparr>number = 9, title = ''Snyk vulnerability [X-9]'',
         labels = [''snyk-vulnerability'', ''help wanted''], state = ''open'',
         body = generateIssueBody scenario_1_record\<rparr>,
        \<lparr>number = 4, title = ''Another issue'', labels = [], state = ''open'', body = ''text''\<rparr>]"
    by (rule trans)
  from t [THEN conjunct2, THEN conjunct2, THEN conjunct2, THEN conjunct2, THEN conjunct1] c
  have b: "tracker_after example_tracker (snd (closeGithubIssue False 9))
     = [\<lparr>number = 9, title = ''Snyk vulnerability [X-9]'',
         labels = [''snyk-vulnerability'', ''help wanted''], state = ''closed'', body = ''old''\<rparr>,
        \<lparr>number = 4, title = ''Another issue'', labels = [], state = ''open'', body = ''text''\<rparr>]"
    by (rule trans)
  from a b show ?thesis by (rule conjI)
qed


section \<open>Two runs in succession\<close>

lemma concat_paginate: "0 < n \<Longrightarrow> concat (paginate n xs) = xs"
proof (induction n xs rule: paginate.induct)
  case (1 n xs)
  show ?case
  proof (cases "xs = []")
    case True
    then show ?thesis by (simp add: paginate.simps)
  next
    case False
    with 1 have "concat (paginate n (drop n xs)) = drop n xs" by simp
    with False 1(2) show ?thesis by (subst paginate.simps) simp
  qed
qed

lemma listing_concat: "concat (list_for_repo listing tr) = filter visible tr"
proof -
  have "visible = (\<lambda>i. state i = ''open'' \<and> SNYK_GH_LABEL \<in> set (labels i))"
    by (rule ext) (simp add: visible_def)
  then show ?thesis
    by (simp add: list_for_repo_def concat_paginate listing_def)
qed

lemma number_less_next: "i \<in> set tr \<Longrightarrow> number i < next_number tr"
  unfolding next_number_def by (induction tr) (auto simp: less_Suc_eq_le max_def)

lemma meta_update_body: "meta (i\<lparr>body := b\<rparr>) = meta i"
  by (simp add: meta_def)

lemma exec_created_title:
  assumes "valid_id k"
  shows "SNYK_ID_REGEX_exec (''Snyk vulnerability ['' @ k @ '']'') = Some k"
proof -
  have "match_here (''['' @ k @ '']'' @ []) = Some k"
    using assms by (intro match_here_token) (simp_all add: valid_id_def)
  then show ?thesis by (simp add: match_here_def)
qed

text \<open>The first loop: updates of bodies and creations.\<close>

lemma apply_update_call_meta:
  "map meta (tracker_apply tr (request_of (Update n v))) = map meta tr"
  by (induction tr) (simp_all add: apply_update_def meta_def)

lemma apply_create_call:
  "map meta (tracker_apply tr (request_of (Create v)))
     = created_meta (next_number tr) v # map meta tr"
  by (simp add: meta_def created_meta_def)

lemma first_loop_invariant:
  assumes "\<forall>c\<in>set cs. \<not> (\<exists>n. c = Close n)"
  shows "\<exists>nm. map meta (foldl tracker_apply tr (map request_of cs)) = nm @ map meta tr
           \<and> (\<forall>m\<in>set nm. fst m \<notin> number ` set tr \<and> fst m \<noteq> 0
                 \<and> (\<exists>v. Create v \<in> set cs \<and> m = created_meta (fst m) v))
           \<and> (\<forall>v. Create v \<in> set cs \<longrightarrow> (\<exists>m\<in>set nm. m = created_meta (fst m) v))"
  using assms
proof (induction cs rule: rev_induct)
  case Nil
  then show ?case by simp
next
  case (snoc c cs)
  define tr1 where "tr1 = foldl tracker_apply tr (map request_of cs)"
  from snoc obtain nm where nm: "map meta tr1 = nm @ map meta tr"
    and old: "\<forall>m\<in>set nm. fst m \<notin> number ` set tr \<and> fst m \<noteq> 0
                 \<and> (\<exists>v. Create v \<in> set cs \<and> m = created_meta (fst m) v)"
    and new: "\<forall>v. Create v \<in> set cs \<longrightarrow> (\<exists>m\<in>set nm. m = created_meta (fst m) v)"
    unfolding tr1_def by auto
  have step: "foldl tracker_apply tr (map request_of (cs @ [c])) = tracker_apply tr1 (request_of c)"
    by (simp add: tr1_def)
  show ?case
  proof (cases c)
    case (Create v)
    let ?n = "next_number tr1"
    have m: "map meta (tracker_apply tr1 (request_of c)) = (created_meta ?n v # nm) @ map meta tr"
      by (simp only: Create apply_create_call nm append_Cons)
    have "map (fst \<circ> meta) tr1 = map fst nm @ map (fst \<circ> meta) tr"
      using arg_cong [OF nm, of "map fst"] by simp
    then have "map number tr1 = map fst nm @ map number tr"
      by (simp add: meta_def comp_def)
    then have "set (map number tr1) = set (map fst nm @ map number tr)" by simp
    then have "number ` set tr \<subseteq> number ` set tr1" by auto
    moreover have "?n \<notin> number ` set tr1" using number_less_next [of _ tr1] by force
    ultimately have fresh: "?n \<notin> number ` set tr" by blast
    have nz: "?n \<noteq> 0" by (simp add: next_number_def)
    have fst_cm: "fst (created_meta ?n v) = ?n" by (simp add: created_meta_def)
    have a: "\<forall>m\<in>set (created_meta ?n v # nm). fst m \<notin> number ` set tr \<and> fst m \<noteq> 0
                 \<and> (\<exists>w. Create w \<in> set (cs @ [c]) \<and> m = created_meta (fst m) w)"
      using old fresh nz fst_cm Create by auto
    have b: "\<forall>w. Create w \<in> set (cs @ [c]) \<longrightarrow>
                (\<exists>m\<in>set (created_meta ?n v # nm). m = created_meta (fst m) w)"
      using new fst_cm Create by auto
    from m a b show ?thesis unfolding step by blast
  next
    case (Update n v)
    have m: "map meta (tracker_apply tr1 (request_of c)) = nm @ map meta tr"
      by (simp only: Update apply_update_call_meta nm)
    have a: "\<forall>m\<in>set nm. fst m \<notin> number ` set tr \<and> fst m \<noteq> 0
                 \<and> (\<exists>w. Create w \<in> set (cs @ [c]) \<and> m = created_meta (fst m) w)"
      using old by auto
    have b: "\<forall>w. Create w \<in> set (cs @ [c]) \<longrightarrow> (\<exists>m\<in>set nm. m = created_meta (fst m) w)"
      using new Update by auto
    from m a b show ?thesis unfolding step by blast
  next
    case (Close n)
    with snoc.prems show ?thesis by auto
  next
    case (UpdateMember k v)
    have m: "map meta (tracker_apply tr1 (request_of c)) = nm @ map meta tr"
      by (simp add: UpdateMember nm)
    have a: "\<forall>m\<in>set nm. fst m \<notin> number ` set tr \<and> fst m \<noteq> 0
                 \<and> (\<exists>w. Create w \<in> set (cs @ [c]) \<and> m = created_meta (fst m) w)"
      using old by auto
    have b: "\<forall>w. Create w \<in> set (cs @ [c]) \<longrightarrow> (\<exists>m\<in>set nm. m = created_meta (fst m) w)"
      using new UpdateMember by auto
    from m a b show ?thesis unfolding step by blast
  qed
qed

text \<open>The second loop: closing.\<close>

lemma second_loop:
  "foldl tracker_apply tr (map request_of (map Close ns))
     = map (\<lambda>i. if number i \<in> set ns then i\<lparr>state := ''closed''\<rparr> else i) tr"
proof (induction ns rule: rev_induct)
  case Nil
  then show ?case by simp
next
  case (snoc n ns)
  then show ?case by (simp add: apply_update_def comp_def)
qed

lemma last_wins:
  "distinct (filter P (map fst xs)) \<Longrightarrow> P k \<Longrightarrow> (k, n) \<in> set xs \<Longrightarrow>
     map_of (rev xs) k = Some n"
proof (induction xs)
  case Nil
  then show ?case by simp
next
  case (Cons x xs)
  show ?case
  proof (cases "(k, n) \<in> set xs")
    case True
    with Cons have "map_of (rev xs) k = Some n" by (simp split: if_splits)
    then show ?thesis by (simp add: map_add_def)
  next
    case False
    with Cons.prems have x: "x = (k, n)" by simp
    with Cons.prems have "k \<notin> set (filter P (map fst xs))" by simp
    with Cons.prems(2) have "k \<notin> fst ` set xs" by simp
    then have "map_of (rev xs) k = None" by (simp add: map_of_eq_None_iff)
    with x show ?thesis by (simp add: map_add_def)
  qed
qed

lemma meta_fields:
  "meta i = meta j \<Longrightarrow> number i = number j \<and> title i = title j \<and> visible i = visible j"
  by (simp add: meta_def visible_def)

lemma visible_closed: "\<not> visible (i\<lparr>state := ''closed''\<rparr>)"
  by (simp add: visible_def)

lemma created_meta_fields:
  "meta i = created_meta n v \<Longrightarrow>
     number i = n \<and> title i = ''Snyk vulnerability ['' @ snykId v @ '']'' \<and> visible i"
  by (simp add: meta_def created_meta_def visible_def SNYK_GH_LABEL_def)

lemma index_get:
  "obj_get (issue_index tr) k = map_of (rev (matched (filter visible tr))) k"
  by (simp add: issue_index_def fetch_get listing_concat)

lemma index_get_Some:
  "obj_get (issue_index tr) k = Some n \<Longrightarrow>
     \<exists>i\<in>set tr. visible i \<and> SNYK_ID_REGEX_exec (title i) = Some k \<and> number i = n"
  using fetch_get_Some [of "list_for_repo listing tr" k n]
  by (auto simp: issue_index_def listing_concat)

lemma index_get_not_None:
  assumes "i \<in> set tr" "visible i" "SNYK_ID_REGEX_exec (title i) = Some k"
  shows "obj_get (issue_index tr) k \<noteq> None"
proof -
  from assms have "(k, number i) \<in> set (rev (matched (filter visible tr)))"
    by (auto simp: matched_mem)
  then have "k \<in> fst ` set (rev (matched (filter visible tr)))" by force
  then show ?thesis by (simp only: index_get map_of_eq_None_iff not_not)
qed

lemma in_report_iff:
  "plain_ids rep \<Longrightarrow> in_report rep k \<longleftrightarrow> k \<in> occ_id ` set (occurrences rep)"
  by (simp add: in_report_def group_get grouped_record_None seen_plain)

lemma in_report_entry:
  "(k, v) \<in> set (group_vulnerabilities rep) \<Longrightarrow> in_report rep k \<and> snykId v = k"
proof -
  assume a: "(k, v) \<in> set (group_vulnerabilities rep)"
  have "distinct (map fst (group_vulnerabilities rep))"
    using distinct_keys_group [of rep] by (simp add: obj_keys_def)
  with a have "obj_get (group_vulnerabilities rep) k = Some v" by (simp add: obj_get_def)
  with a show ?thesis by (simp add: in_report_def group_entry_snykId)
qed

lemma in_report_has_entry:
  "in_report rep k \<Longrightarrow> \<exists>v. (k, v) \<in> set (group_vulnerabilities rep)"
  by (auto simp: in_report_def obj_get_def dest: map_of_SomeD)

lemma in_report_not_inherited: "in_report rep k \<Longrightarrow> \<not> inherited k"
  using group_key_not_inherited [of k rep] obj_get_keys [of "group_vulnerabilities rep" k]
  by (auto simp: in_report_def)

lemma tracker_after_listing:
  "tracker_after tr (replicate m (ListForRepo l) @ rs) = tracker_after tr rs"
  by (induction m) (simp_all add: tracker_after_def)

lemma plan_calls:
  assumes "\<forall>k\<in>set (obj_keys store). \<not> inherited k"
  shows "map snd (main_calls idx store) =
     map (\<lambda>(k, v). case obj_get idx k of
                      Some n \<Rightarrow> if n \<noteq> 0 then Update n v else Create v
                    | None \<Rightarrow> Create v) (object_entries store)
     @ map Close (map snd (filter (\<lambda>(k, n). obj_get store k = None \<and> \<not> inherited k)
                             (object_entries idx)))"
proof -
  have r: "obj_read idx k = (case obj_get idx k of Some n \<Rightarrow> Own n | None \<Rightarrow> Undefined)"
    if "(k, v) \<in> set (object_entries store)" for k v
  proof -
    from that have "k \<in> set (obj_keys store)"
      by (force simp: set_object_entries obj_keys_def)
    with assms have "\<not> inherited k" by blast
    then show ?thesis by (simp add: obj_read_def obj_get_def split: option.splits)
  qed
  have a: "map (\<lambda>x. snd (case x of (i, v) \<Rightarrow>
                 (i, case obj_read idx i of
                       Own n \<Rightarrow> if n \<noteq> 0 then Update n v else Create v
                     | Inherited \<Rightarrow> UpdateMember i v
                     | Undefined \<Rightarrow> Create v))) (object_entries store)
           = map (\<lambda>(k, v). case obj_get idx k of
                      Some n \<Rightarrow> if n \<noteq> 0 then Update n v else Create v
                    | None \<Rightarrow> Create v) (object_entries store)"
    by (rule map_cong [OF refl]) (auto simp: r split: option.splits)
  have b: "(\<lambda>(snykId, githubIssueId :: nat). obj_read store snykId = Undefined)
           = (\<lambda>(k, n). obj_get store k = None \<and> \<not> inherited k)"
    by (simp add: fun_eq_iff obj_read_Undefined_iff)
  show ?thesis
    unfolding main_calls_def map_append map_map comp_def b
    using a by (simp add: case_prod_beta)
qed

lemma tracker_after_first_run:
  fixes tr :: tracker and rep :: report
  assumes "\<forall>n. ok n" and "plain_ids rep"
  defines "idx \<equiv> issue_index tr"
    and "store \<equiv> group_vulnerabilities rep"
  defines "cs \<equiv> map (\<lambda>(k, v). case obj_get idx k of
                      Some n \<Rightarrow> if n \<noteq> 0 then Update n v else Create v
                    | None \<Rightarrow> Create v) (object_entries store)"
    and "ns \<equiv> map snd (filter (\<lambda>(k, n). obj_get store k = None \<and> \<not> inherited k)
                          (object_entries idx))"
  shows "first_run_tracker ok tr rep
         = map (\<lambda>i. if number i \<in> set ns then i\<lparr>state := ''closed''\<rparr> else i)
             (foldl tracker_apply tr (map request_of cs))"
proof -
  have m: "main False ok tr rep =
        \<lparr>console = index_log tr @ concat (map decision_log (map snd (plan tr rep))),
         sent = listing_requests tr @ map request_of (map snd (plan tr rep)),
         thrown = None\<rparr>"
    using assms(2) by (simp add: main_all_succeed [OF assms(1)] grouping_error_plain)
  have p: "map snd (plan tr rep) = cs @ map Close ns"
    unfolding plan_def cs_def ns_def idx_def store_def
    by (rule plan_calls) (auto dest: group_key_not_inherited)
  have "first_run_tracker ok tr rep
        = foldl tracker_apply (foldl tracker_apply tr (map request_of cs))
            (map request_of (map Close ns))"
    unfolding first_run_tracker_def m accepted_def
    by (simp add: listing_requests_def tracker_after_listing p) (simp add: tracker_after_def)
  then show ?thesis by (simp only: second_loop)
qed

lemma second_run_tracker:
  assumes ids: "\<forall>e\<in>set (occurrences rep). valid_id (occ_id e)"
    and dn: "distinct (map number tr)"
    and nz: "\<forall>i\<in>set tr. number i \<noteq> 0"
    and dup: "distinct (filter (\<lambda>k. \<not> in_report rep k) (extracted_ids tr))"
    and plain: "plain_ids rep"
    and ok: "\<forall>n. ok n"
  defines "tr2 \<equiv> first_run_tracker ok tr rep"
  shows "(\<forall>i\<in>set tr2. visible i \<and> SNYK_ID_REGEX_exec (title i) = Some k \<longrightarrow>
            in_report rep k \<or> inherited k)
       \<and> (in_report rep k \<longrightarrow> (\<exists>i\<in>set tr2. visible i \<and> SNYK_ID_REGEX_exec (title i) = Some k))
       \<and> (\<forall>i\<in>set tr2. number i \<noteq> 0)"
proof -
  define idx where "idx = issue_index tr"
  define store where "store = group_vulnerabilities rep"
  define cs where "cs = map (\<lambda>(k, v). case obj_get idx k of
                      Some n \<Rightarrow> if n \<noteq> 0 then Update n v else Create v
                    | None \<Rightarrow> Create v) (object_entries store)"
  define ns where "ns = map snd (filter (\<lambda>(k, n). obj_get store k = None \<and> \<not> inherited k)
                                   (object_entries idx))"
  define tr1 where "tr1 = foldl tracker_apply tr (map request_of cs)"
  have tr2: "tr2 = map (\<lambda>i. if number i \<in> set ns then i\<lparr>state := ''closed''\<rparr> else i) tr1"
    unfolding tr2_def tr1_def cs_def ns_def idx_def store_def
    using ok plain by (rule tracker_after_first_run)
  have idx_nz: "n \<noteq> 0" if "obj_get idx k' = Some n" for k' n
    using index_get_Some [of tr k' n] that nz by (auto simp: idx_def)
  have didx: "distinct (map fst idx)"
    using distinct_keys_fetch [of "list_for_repo listing tr"]
    by (simp add: idx_def issue_index_def obj_keys_def)
  \<comment> \<open>the calls of the first loop\<close>
  have no_close: "\<forall>c\<in>set cs. \<not> (\<exists>n. c = Close n)"
    by (auto simp: cs_def split: option.splits if_splits)
  have create_report: "in_report rep (snykId v)" if "Create v \<in> set cs" for v
  proof -
    from that obtain k where "(k, v) \<in> set store"
      by (auto simp: cs_def set_object_entries split: option.splits if_splits)
    then show ?thesis using in_report_entry [of k v rep] by (simp add: store_def)
  qed
  have report_create: "\<exists>v. Create v \<in> set cs \<and> snykId v = k'"
    if "in_report rep k'" "obj_get idx k' = None" for k'
  proof -
    from that(1) obtain v where v: "(k', v) \<in> set store"
      using in_report_has_entry [of rep k'] by (auto simp: store_def)
    then have "snykId v = k'" using in_report_entry [of k' v rep] by (simp add: store_def)
    moreover from v that(2) have "Create v \<in> set cs"
      by (force simp: cs_def set_object_entries)
    ultimately show ?thesis by blast
  qed
  \<comment> \<open>the numbers closed by the second loop\<close>
  have closed_iff: "n \<in> set ns \<longleftrightarrow>
      (\<exists>k'. obj_get idx k' = Some n \<and> \<not> in_report rep k' \<and> \<not> inherited k')" for n
  proof -
    have "(k', n) \<in> set idx \<longleftrightarrow> obj_get idx k' = Some n" for k'
      using didx by (auto simp: obj_get_def dest: map_of_SomeD)
    then show ?thesis
      by (auto simp: ns_def set_object_entries in_report_def store_def image_iff)
  qed
  \<comment> \<open>the tracker after the first loop\<close>
  from first_loop_invariant [OF no_close, of tr] obtain nm where
    nm: "map meta tr1 = nm @ map meta tr"
    and nm_new: "\<forall>m\<in>set nm. fst m \<notin> number ` set tr \<and> fst m \<noteq> 0
                 \<and> (\<exists>v. Create v \<in> set cs \<and> m = created_meta (fst m) v)"
    and nm_all: "\<forall>v. Create v \<in> set cs \<longrightarrow> (\<exists>m\<in>set nm. m = created_meta (fst m) v)"
    unfolding tr1_def by blast
  have set_meta: "meta ` set tr1 = set nm \<union> meta ` set tr"
    using arg_cong [OF nm, of set] by simp
  have in_tr1_new: "\<exists>i\<in>set tr1. meta i = m" if "m \<in> set nm" for m
  proof -
    from that have "m \<in> meta ` set tr1" unfolding set_meta by simp
    then show ?thesis by (auto simp: image_iff)
  qed
  have in_tr1_old: "\<exists>i\<in>set tr1. meta i = meta j" if "j \<in> set tr" for j
  proof -
    from that have "meta j \<in> meta ` set tr1" unfolding set_meta by simp
    then show ?thesis by (auto simp: image_iff)
  qed
  have F1: "i \<in> set tr1 \<and> number i \<notin> set ns" if "i \<in> set tr2" "visible i" for i
  proof -
    from that(1) obtain j where j: "j \<in> set tr1"
      and i: "i = (if number j \<in> set ns then j\<lparr>state := ''closed''\<rparr> else j)"
      by (auto simp: tr2)
    with that(2) visible_closed [of j] have "number j \<notin> set ns" by auto
    with i j show ?thesis by simp
  qed
  have F2: "i \<in> set tr2" if "i \<in> set tr1" "number i \<notin> set ns" for i
    using that by (force simp: tr2)
  have valid: "valid_id k'" if "in_report rep k'" for k'
    using that ids by (auto simp: in_report_iff [OF plain])
  have A: "in_report rep k \<or> inherited k"
    if i: "i \<in> set tr2" "visible i" "SNYK_ID_REGEX_exec (title i) = Some k" for i
  proof -
    from F1 [OF i(1,2)] have i1: "i \<in> set tr1" and open_: "number i \<notin> set ns" by simp_all
    from i1 have "meta i \<in> set nm \<union> meta ` set tr" using set_meta by blast
    then show ?thesis
    proof
      assume "meta i \<in> set nm"
      with nm_new obtain v where v: "Create v \<in> set cs" "meta i = created_meta (fst (meta i)) v"
        by blast
      from create_report [OF v(1)] have r: "in_report rep (snykId v)" .
      from created_meta_fields [OF v(2)] have "title i = ''Snyk vulnerability ['' @ snykId v @ '']''"
        by simp
      with exec_created_title [OF valid [OF r]] i(3) have "k = snykId v" by simp
      with r show ?thesis by simp
    next
      assume "meta i \<in> meta ` set tr"
      then obtain j where j: "j \<in> set tr" "meta i = meta j" by blast
      from meta_fields [OF j(2)] i have jv: "visible j" "SNYK_ID_REGEX_exec (title j) = Some k"
        and jn: "number j = number i" by simp_all
      show ?thesis
      proof (rule ccontr)
        assume "\<not> (in_report rep k \<or> inherited k)"
        then have not: "\<not> in_report rep k" and noti: "\<not> inherited k" by simp_all
        from j(1) jv have "(k, number j) \<in> set (matched (filter visible tr))"
          by (auto simp: matched_mem)
        with dup not have "map_of (rev (matched (filter visible tr))) k = Some (number j)"
          by (intro last_wins [where P = "\<lambda>k. \<not> in_report rep k"])
             (simp_all add: extracted_ids_def listing_concat)
        then have "obj_get idx k = Some (number j)" by (simp add: idx_def index_get)
        with not noti have "number j \<in> set ns" using closed_iff by blast
        with open_ jn show False by simp
      qed
    qed
  qed
  have B: "\<exists>i\<in>set tr2. visible i \<and> SNYK_ID_REGEX_exec (title i) = Some k" if r: "in_report rep k"
  proof (cases "obj_get idx k")
    case None
    from report_create [OF r None] obtain v where v: "Create v \<in> set cs" "snykId v = k" by blast
    with nm_all obtain m where m: "m \<in> set nm" "m = created_meta (fst m) v" by blast
    from in_tr1_new [OF m(1)] obtain i where i: "i \<in> set tr1" "meta i = m" by blast
    from i(2) m(2) have "meta i = created_meta (fst m) v" by (rule trans)
    from created_meta_fields [OF this] v(2)
    have f: "number i = fst m" "title i = ''Snyk vulnerability ['' @ k @ '']''" "visible i"
      by simp_all
    have "number i \<notin> set ns"
    proof
      assume "number i \<in> set ns"
      then obtain k' where "obj_get idx k' = Some (number i)" using closed_iff by blast
      then obtain j where "j \<in> set tr" "number j = number i"
        using index_get_Some [of tr k' "number i"] by (auto simp: idx_def)
      then have "number i \<in> number ` set tr"
        by (intro image_eqI [where x = j]) simp_all
      with nm_new m(1) f(1) show False by auto
    qed
    with i(1) have "i \<in> set tr2" by (rule F2)
    moreover have "SNYK_ID_REGEX_exec (title i) = Some k"
      using exec_created_title [OF valid [OF r]] f(2) by simp
    ultimately show ?thesis using f(3) by blast
  next
    case (Some n)
    from index_get_Some [of tr k n] Some obtain j where
      j: "j \<in> set tr" "visible j" "SNYK_ID_REGEX_exec (title j) = Some k" "number j = n"
      by (auto simp: idx_def)
    from in_tr1_old [OF j(1)] obtain i where i: "i \<in> set tr1" "meta i = meta j" by blast
    from meta_fields [OF i(2)] j have f: "number i = n" "visible i"
      "SNYK_ID_REGEX_exec (title i) = Some k" by simp_all
    have "n \<notin> set ns"
    proof
      assume "n \<in> set ns"
      then obtain k' where k': "obj_get idx k' = Some n" "\<not> in_report rep k'"
        using closed_iff by blast
      from index_get_Some [of tr k' n] k'(1) obtain j' where
        j': "j' \<in> set tr" "SNYK_ID_REGEX_exec (title j') = Some k'" "number j' = n"
        by (auto simp: idx_def)
      from dn have "inj_on number (set tr)" by (simp add: distinct_map)
      from inj_onD [OF this, of j' j] j(1) j'(1) j(4) j'(3) have "j' = j" by simp
      with j(3) j'(2) have "k' = k" by simp
      with k'(2) r show False by simp
    qed
    with i(1) f(1) have "i \<in> set tr2" by (intro F2) simp_all
    with f show ?thesis by blast
  qed
  have Z: "number i \<noteq> 0" if "i \<in> set tr2" for i
  proof -
    from that obtain j where j: "j \<in> set tr1" "number i = number j"
      by (auto simp: tr2)
    from j(1) have "meta j \<in> set nm \<union> meta ` set tr" using set_meta by blast
    then have "fst (meta j) \<noteq> 0"
      using nm_new nz by (auto simp: meta_def)
    with j(2) show ?thesis by (simp add: meta_def)
  qed
  from A B Z show ?thesis by blast
qed

text \<open>
  C2, as stated, fails. A report identifier with a character outside the pattern (the
  dot of a licence identifier) is written into the title of the created issue and not
  read back, so the second run creates the issue again. Two open issues for one
  identifier that the report does not hold are closed one per run, so the second run
  closes the second. A report identifier that names an inherited member makes the
  grouping throw in the first run and in the second, before any call is made.
\<close>

theorem second_run_not_only_updates:
  "\<not> list_all (\<lambda>c. is_update (snd c)) (second_run_plan all_succeed [] licence_report)
   \<and> map fst (second_run_plan all_succeed [] licence_report) = [''snyk:lic:npm:foo:MPL-2.0'']
   \<and> \<not> list_all (\<lambda>c. is_update (snd c)) (second_run_plan all_succeed twin_tracker scenario_1)
   \<and> map snd (second_run_plan all_succeed twin_tracker scenario_1)
       = [Update 10 scenario_1_record, Close 9]
   \<and> main False all_succeed (first_run_tracker all_succeed [] member_report) member_report
       = \<lparr>console = [], sent = [ListForRepo listing], thrown = Some TypeError\<rparr>"
  by code_simp

text \<open>
  C2, amended. Let every identifier of the report be a non-empty text of letters,
  digits, \<open>-\<close> and \<open>:\<close> that names no inherited member, let the issue numbers of the
  tracker be distinct and not \<open>0\<close>, and let no two listed issues yield the same
  identifier unless the report holds it. A first run that is not a dry run and whose
  requests all succeed ends without an error. The plan of the second run over the same
  report has then exactly one call per identifier of the report, and every call is an
  UPDATE: no CREATE and no CLOSE; and a second run whose requests all succeed logs
  these calls and sends, after the listing, their requests and no other.
\<close>

theorem second_run_only_updates:
  assumes "\<forall>e\<in>set (occurrences rep). valid_id (occ_id e)"
    and "plain_ids rep"
    and "distinct (map number tr)"
    and "\<forall>i\<in>set tr. number i \<noteq> 0"
    and "distinct (filter (\<lambda>k. \<not> in_report rep k) (extracted_ids tr))"
    and "\<forall>n. ok n"
    and "\<forall>n. ok' n"
  shows "thrown (main False ok tr rep) = None
         \<and> list_all (\<lambda>c. is_update (snd c)) (second_run_plan ok tr rep)
         \<and> map fst (second_run_plan ok tr rep) = map fst (object_entries (group_vulnerabilities rep))
         \<and> main False ok' (first_run_tracker ok tr rep) rep =
             \<lparr>console = index_log (first_run_tracker ok tr rep)
                         @ concat (map decision_log (map snd (second_run_plan ok tr rep))),
              sent = listing_requests (first_run_tracker ok tr rep)
                     @ map request_of (map snd (second_run_plan ok tr rep)),
              thrown = None\<rparr>"
proof -
  define tr2 where "tr2 = first_run_tracker ok tr rep"
  define idx where "idx = issue_index tr2"
  define store where "store = group_vulnerabilities rep"
  note t = second_run_tracker [OF assms(1,3,4,5,2,6), folded tr2_def]
  have first: "thrown (main False ok tr rep) = None"
    using assms(2) by (simp add: main_all_succeed [OF assms(6)] grouping_error_plain)
  have second: "main False ok' tr2 rep =
             \<lparr>console = index_log tr2 @ concat (map decision_log (map snd (plan tr2 rep))),
              sent = listing_requests tr2 @ map request_of (map snd (plan tr2 rep)),
              thrown = None\<rparr>"
    using assms(2) by (simp add: main_all_succeed [OF assms(7)] grouping_error_plain)
  have P1: "(in_report rep k \<or> inherited k) \<and> n \<noteq> 0" if "obj_get idx k = Some n" for k n
  proof -
    from index_get_Some [of tr2 k n] that obtain i where
      "i \<in> set tr2" "visible i" "SNYK_ID_REGEX_exec (title i) = Some k" "number i = n"
      by (auto simp: idx_def)
    with t [of k] show ?thesis by blast
  qed
  have P2: "\<exists>n. obj_get idx k = Some n \<and> n \<noteq> 0" if "in_report rep k" for k
  proof -
    from t [of k] that obtain i where
      "i \<in> set tr2" "visible i" "SNYK_ID_REGEX_exec (title i) = Some k" by blast
    then have "obj_get idx k \<noteq> None" unfolding idx_def by (rule index_get_not_None)
    then obtain n where "obj_get idx k = Some n" by auto
    with P1 show ?thesis by blast
  qed
  have none: "filter (\<lambda>(k, n). obj_read store k = Undefined) (object_entries idx) = []"
  proof -
    have "obj_read store k \<noteq> Undefined" if "(k, n) \<in> set idx" for k n
    proof -
      from that have "k \<in> fst ` set idx" by force
      then have "obj_get idx k \<noteq> None" by (simp add: obj_get_def map_of_eq_None_iff)
      then obtain n' where "obj_get idx k = Some n'" by auto
      from P1 [OF this] show ?thesis
        by (auto simp: in_report_def store_def obj_read_Undefined_iff)
    qed
    then show ?thesis by (auto simp: filter_empty_conv set_object_entries)
  qed
  have upd: "\<exists>n. (case obj_read idx k of
                    Own n \<Rightarrow> if n \<noteq> 0 then Update n v else Create v
                  | Inherited \<Rightarrow> UpdateMember k v
                  | Undefined \<Rightarrow> Create v) = Update n v"
    if "(k, v) \<in> set (object_entries store)" for k v
  proof -
    from that have "(k, v) \<in> set (group_vulnerabilities rep)"
      by (simp add: set_object_entries store_def)
    then have "in_report rep k" using in_report_entry by blast
    from P2 [OF this] obtain n where n: "obj_get idx k = Some n" "n \<noteq> 0" by blast
    from n(1) have "obj_read idx k = Own n" by (rule obj_read_own)
    with n(2) show ?thesis by simp
  qed
  have plan: "second_run_plan ok tr rep =
      map (\<lambda>(i, v). (i, case obj_read idx i of
                    Own n \<Rightarrow> if n \<noteq> 0 then Update n v else Create v
                  | Inherited \<Rightarrow> UpdateMember i v
                  | Undefined \<Rightarrow> Create v)) (object_entries store)"
    using none
    by (simp add: second_run_plan_def plan_def main_calls_def idx_def tr2_def store_def)
  have "list_all (\<lambda>c. is_update (snd c)) (second_run_plan ok tr rep)"
    unfolding plan list_all_iff
  proof
    fix c
    assume "c \<in> set (map (\<lambda>(i, v). (i, case obj_read idx i of
                    Own n \<Rightarrow> if n \<noteq> 0 then Update n v else Create v
                  | Inherited \<Rightarrow> UpdateMember i v
                  | Undefined \<Rightarrow> Create v)) (object_entries store))"
    then obtain k v where kv: "(k, v) \<in> set (object_entries store)"
      and c: "c = (k, case obj_read idx k of
                    Own n \<Rightarrow> if n \<noteq> 0 then Update n v else Create v
                  | Inherited \<Rightarrow> UpdateMember k v
                  | Undefined \<Rightarrow> Create v)"
      by auto
    from upd [OF kv] obtain n where "snd c = Update n v" unfolding c by auto
    then show "is_update (snd c)" by (simp add: is_update_def)
  qed
  moreover have "map fst (second_run_plan ok tr rep) = map fst (object_entries store)"
    unfolding plan by (simp add: comp_def case_prod_beta)
  moreover have "plan tr2 rep = second_run_plan ok tr rep"
    by (simp add: second_run_plan_def tr2_def)
  ultimately show ?thesis
    using first second by (simp add: store_def tr2_def)
qed

theorem second_run_only_updates_witness:
  "thrown (main False all_succeed example_tracker scenario_1) = None
   \<and> list_all (\<lambda>c. is_update (snd c)) (second_run_plan all_succeed example_tracker scenario_1)
   \<and> map fst (second_run_plan all_succeed example_tracker scenario_1) = [''SNYK-JS-LODASH-1234'']
   \<and> sent (main False all_succeed (first_run_tracker all_succeed example_tracker scenario_1) scenario_1)
       = listing_requests (first_run_tracker all_succeed example_tracker scenario_1)
         @ map request_of (map snd (second_run_plan all_succeed example_tracker scenario_1))"
proof -
  have a: "\<forall>e\<in>set (occurrences scenario_1). valid_id (occ_id e)"
    by (simp add: occurrences_def occurrences_of_def scan_def scenario_1_def valid_id_def id_char_def)
  have p: "plain_ids scenario_1"
    by code_simp
  have b: "distinct (map number example_tracker)"
    by (simp add: example_tracker_def)
  have c: "\<forall>i\<in>set example_tracker. number i \<noteq> 0"
    by (simp add: example_tracker_def)
  have "extracted_ids example_tracker = [''X-9'']"
    by code_simp
  then have d: "distinct (filter (\<lambda>k. \<not> in_report scenario_1 k) (extracted_ids example_tracker))"
    by simp
  have e: "map fst (object_entries (group_vulnerabilities scenario_1)) = [''SNYK-JS-LODASH-1234'']"
    by code_simp
  note t = second_run_only_updates [OF a p b c d all_succeed_all all_succeed_all, unfolded e]
  from t [THEN conjunct2, THEN conjunct2, THEN conjunct2]
  have s: "sent (main False all_succeed (first_run_tracker all_succeed example_tracker scenario_1) scenario_1)
       = listing_requests (first_run_tracker all_succeed example_tracker scenario_1)
         @ map request_of (map snd (second_run_plan all_succeed example_tracker scenario_1))"
    by (rule arg_cong [where f = sent, THEN trans]) (simp only: run.simps)
  from t [THEN conjunct1] t [THEN conjunct2, THEN conjunct1]
       t [THEN conjunct2, THEN conjunct2, THEN conjunct1] s
  show ?thesis by (intro conjI)
qed

end
